theory Spec2Isabelle
  imports Main "HOL-Library.Word"
begin

unbundle bit_operations_syntax

section \<open>Data model (node.go, iterate.go)\<close>

text \<open>
  Go's fixed-width unsigned integers are words; \<open>+\<close> and \<open>-\<close> wrap around as in Go.
  A \<open>[]byte\<close> that the code tests against \<open>nil\<close> is a \<open>byte list option\<close>, with
  \<open>None\<close> for the nil slice; a \<open>[]byte\<close> of which only the length and the content are
  used is a \<open>byte list\<close> (nil and empty are both \<open>[]\<close>).
  A pointer to a node is modelled by the node it points to; the entries of the
  \<open>children\<close> slice, which \<open>make\<close> creates as nil pointers, are \<open>INode option\<close>.
\<close>

type_synonym byte = "8 word"
type_synonym u16 = "16 word"
type_synonym u32 = "32 word"
type_synonym u64 = "64 word"

datatype LNode = LNode
  (version: u64) (startOffset: u64) (endOffset: u16) (keyLength: byte)
  (key: "byte list option") (value': "byte list")

datatype INode = INode
  (version: u64) (startOffset: u64) (endOffset: u16) (bitmap: "u32 list")
  (leaf: LNode) (children: "INode option list")

text \<open>
  Modelled from the spec: the layout constants of section 4.1, which node.go uses and
  does not declare. \<open>NodeKeyIdx = 19\<close>, \<open>NodeChildrenIdx = 58\<close>, each child pointer
  is 8 bytes, the end offset is a u16 at offset 16.
\<close>

definition NodeEndOffsetIdx :: nat where "NodeEndOffsetIdx = 16"
definition OffsetSize16 :: nat where "OffsetSize16 = 2"
definition NodeKeyIdx :: nat where "NodeKeyIdx = 19"
definition NodeChildrenIdx :: nat where "NodeChildrenIdx = 58"
definition NodeChildPtrSize :: nat where "NodeChildPtrSize = 8"

text \<open>
  Modelled from the spec: \<open>calculateHammingWeight\<close> is not in node.go; the spec calls
  it the Hamming weight (popcount) of one 32-bit word of the bitmap. The result is a Go
  \<open>int\<close>.
\<close>

definition calculateHammingWeight :: "u32 \<Rightarrow> int" where
  "calculateHammingWeight w = int (length (filter (bit w) [0..<32]))"

text \<open>The number of bits set in the whole bitmap, as invariant I1 counts them.\<close>

definition popcount :: "u32 list \<Rightarrow> nat" where
  "popcount bm = sum_list (map (\<lambda>w. nat (calculateHammingWeight w)) bm)"

section \<open>Node operations (node.go)\<close>

text \<open>
  Go's builtin \<open>copy(dst, src)\<close> overwrites the first \<open>min (len dst) (len src)\<close>
  elements of \<open>dst\<close>; \<open>make([]*INode, n)\<close> is \<open>n\<close> nil pointers.
\<close>

definition go_copy :: "'a list \<Rightarrow> 'a list \<Rightarrow> 'a list" where
  "go_copy dst src =
     take (min (length dst) (length src)) src @ drop (min (length dst) (length src)) dst"

definition make_INodes :: "nat \<Rightarrow> INode option list" where
  "make_INodes n = replicate n None"

text \<open>
  \<open>copyINode\<close>: the node that \<open>pool.getINode()\<close> hands out is the first argument (the
  pool is not in node.go); the fields that the function does not assign keep the
  pooled node's values.
\<close>

definition copyINode :: "INode \<Rightarrow> INode \<Rightarrow> INode" where
  "copyINode nodeCopy node =
     INode (INode.version node) (INode.startOffset nodeCopy) (INode.endOffset nodeCopy)
       (bitmap node) (leaf node)
       (go_copy (make_INodes (length (children node))) (children node))"

text \<open>
  \<open>determineEndOffsetINode\<close>: the loop over the eight words of the bitmap is a fold;
  \<open>uint16(...)\<close> truncates the Go \<open>int\<close>.
\<close>

definition determineEndOffsetINode :: "INode \<Rightarrow> u16" where
  "determineEndOffsetINode node =
     (let encodedChildrenLength =
            foldl (\<lambda>totalChildren subBitmap. totalChildren + calculateHammingWeight subBitmap)
              0 (bitmap node) * int NodeChildPtrSize;
          nodeEndOffset =
            (if encodedChildrenLength \<noteq> 0
             then 0 + word_of_int (int NodeChildrenIdx + encodedChildrenLength)
             else 0 + word_of_nat NodeChildrenIdx)
      in nodeEndOffset - 1)"


definition getEndOffsetINode :: "INode \<Rightarrow> u64" where
  "getEndOffsetINode node = INode.startOffset node + ucast (INode.endOffset node)"

definition getEndOffsetLNode :: "LNode \<Rightarrow> u64" where
  "getEndOffsetLNode node = LNode.startOffset node + ucast (LNode.endOffset node)"

section \<open>Results, panics and the memory map\<close>

text \<open>
  A Go call that returns \<open>(value, error)\<close> returns \<open>Ok value\<close> or \<open>Err message\<close>; a
  run-time panic (a slice expression out of range, a nil dereference) is the value
  \<open>Panic\<close>, which a deferred \<open>recover\<close> turns into an error.
\<close>

datatype 'a result = Ok 'a | Err string | Panic

definition recover_with :: "string \<Rightarrow> 'a result \<Rightarrow> 'a result" where
  "recover_with msg r = (case r of Panic \<Rightarrow> Err msg | Ok v \<Rightarrow> Ok v | Err e \<Rightarrow> Err e)"

definition then_result :: "'a result \<Rightarrow> ('a \<Rightarrow> 'b result) \<Rightarrow> 'b result" where
  "then_result r f = (case r of Ok v \<Rightarrow> f v | Err e \<Rightarrow> Err e | Panic \<Rightarrow> Panic)"

text \<open>
  The instance. \<open>data\<close> is the memory map (a byte slice whose capacity is its length);
  \<open>flushed\<close> records the regions handed to the disk, in order. The functions of the
  package that node.go calls and does not define are fields of the record, so that
  every theorem holds for any implementation of them: the codec
  (\<open>deserializeUint16\<close>, \<open>deserializeINode\<close>, \<open>deserializeLNode\<close>, \<open>serializeINode\<close>,
  \<open>serializeLNode\<close>) and the outcome of a flush of a region (\<open>flushOutcome\<close>).
\<close>

record Mari =
  data :: "byte list"
  flushed :: "(u64 \<times> u64) list"
  deserializeUint16 :: "byte list \<Rightarrow> u16 result"
  deserializeINode :: "byte list \<Rightarrow> INode result"
  deserializeLNode :: "byte list \<Rightarrow> LNode result"
  serializeINode :: "INode \<Rightarrow> bool \<Rightarrow> byte list result"
  serializeLNode :: "LNode \<Rightarrow> byte list result"
  flushOutcome :: "u64 \<Rightarrow> u64 \<Rightarrow> unit result"

text \<open>
  The slice expression \<open>mMap[lo:hi]\<close> with uint64 bounds: it panics unless
  \<open>lo \<le> hi \<le> cap(mMap)\<close>. \<open>copy(mMap[lo:hi], src)\<close> writes into the map.
\<close>

definition go_slice :: "byte list \<Rightarrow> u64 \<Rightarrow> u64 \<Rightarrow> byte list result" where
  "go_slice mMap lo hi =
     (if unat lo \<le> unat hi \<and> unat hi \<le> length mMap
      then Ok (take (unat hi - unat lo) (drop (unat lo) mMap))
      else Panic)"

definition copy_to_slice :: "byte list \<Rightarrow> u64 \<Rightarrow> u64 \<Rightarrow> byte list \<Rightarrow> byte list result" where
  "copy_to_slice mMap lo hi src =
     (if unat lo \<le> unat hi \<and> unat hi \<le> length mMap
      then Ok (take (unat lo) mMap
               @ go_copy (take (unat hi - unat lo) (drop (unat lo) mMap)) src
               @ drop (unat hi) mMap)
      else Panic)"

text \<open>
  Modelled from the spec: \<open>flushRegionToDisk\<close> is not in node.go; the spec's
  \<open>flushRegion(start, end)\<close> syncs \<open>[start, end]\<close> to disk or fails with an error.
\<close>

definition flushRegionToDisk :: "Mari \<Rightarrow> u64 \<Rightarrow> u64 \<Rightarrow> unit result \<times> Mari" where
  "flushRegionToDisk mariInst start end' =
     (case flushOutcome mariInst start end' of
        Ok u \<Rightarrow> (Ok (), mariInst\<lparr>flushed := flushed mariInst @ [(start, end')]\<rparr>)
      | Err e \<Rightarrow> (Err e, mariInst)
      | Panic \<Rightarrow> (Panic, mariInst))"

definition readLNodeFromMemMap :: "Mari \<Rightarrow> u64 \<Rightarrow> LNode result" where
  "readLNodeFromMemMap mariInst startOffset' =
     recover_with ''error reading node from mem map''
       (let endOffsetIdx = startOffset' + word_of_nat NodeEndOffsetIdx;
            mMap = data mariInst
        in then_result (go_slice mMap endOffsetIdx (endOffsetIdx + word_of_nat OffsetSize16))
             (\<lambda>sEndOffset. then_result (deserializeUint16 mariInst sEndOffset)
             (\<lambda>endOffset. then_result (go_slice mMap startOffset' (startOffset' + ucast endOffset + 1))
             (\<lambda>sNode. then_result (deserializeLNode mariInst sNode)
             (\<lambda>node. Ok node)))))"

definition readINodeFromMemMap :: "Mari \<Rightarrow> u64 \<Rightarrow> INode result" where
  "readINodeFromMemMap mariInst startOffset' =
     recover_with ''error reading node from mem map''
       (let endOffsetIdx = startOffset' + word_of_nat NodeEndOffsetIdx;
            mMap = data mariInst
        in then_result (go_slice mMap endOffsetIdx (endOffsetIdx + word_of_nat OffsetSize16))
             (\<lambda>sEndOffset. then_result (deserializeUint16 mariInst sEndOffset)
             (\<lambda>endOffset. then_result (go_slice mMap startOffset' (startOffset' + ucast endOffset + 1))
             (\<lambda>sNode. then_result (deserializeINode mariInst sNode)
             (\<lambda>node. then_result (readLNodeFromMemMap mariInst (LNode.startOffset (leaf node)))
             (\<lambda>leaf'. Ok (INode (INode.version node) (INode.startOffset node)
                            (INode.endOffset node) (bitmap node) leaf' (children node))))))))"

text \<open>\<open>getChildNode\<close>: a nil \<open>childOffset\<close> is dereferenced, which panics.\<close>

definition getChildNode :: "Mari \<Rightarrow> INode option \<Rightarrow> u64 \<Rightarrow> INode result" where
  "getChildNode mariInst childOffset version' =
     (case childOffset of
        None \<Rightarrow> Panic
      | Some ref \<Rightarrow>
          if INode.version ref = version' \<and> INode.startOffset ref = 0
          then Ok ref
          else then_result (readINodeFromMemMap mariInst (INode.startOffset ref))
                 (\<lambda>childNode. Ok childNode))"

text \<open>
  The writers return the result and the instance with its map and flush record
  updated; what was written before a panic or an error stays written.
\<close>

definition writeLNodeToMemMap :: "Mari \<Rightarrow> LNode \<Rightarrow> u64 result \<times> Mari" where
  "writeLNodeToMemMap mariInst node =
     (case serializeLNode mariInst node of
        Panic \<Rightarrow> (Err ''error writing new path to mmap'', mariInst)
      | Err writeErr \<Rightarrow> (Err writeErr, mariInst)
      | Ok sNode \<Rightarrow>
          (let endOffset = getEndOffsetLNode node in
           case copy_to_slice (data mariInst) (LNode.startOffset node) (endOffset + 1) sNode of
             Panic \<Rightarrow> (Err ''error writing new path to mmap'', mariInst)
           | Err e \<Rightarrow> (Err e, mariInst)
           | Ok mMap \<Rightarrow>
               (case flushRegionToDisk (mariInst\<lparr>data := mMap\<rparr>) (LNode.startOffset node) endOffset of
                  (Panic, mariInst') \<Rightarrow> (Err ''error writing new path to mmap'', mariInst')
                | (Err writeErr, mariInst') \<Rightarrow> (Err writeErr, mariInst')
                | (Ok u, mariInst') \<Rightarrow> (Ok (endOffset + 1), mariInst'))))"

definition writeINodeToMemMap :: "Mari \<Rightarrow> INode \<Rightarrow> u64 result \<times> Mari" where
  "writeINodeToMemMap mariInst node =
     (case serializeINode mariInst node False of
        Panic \<Rightarrow> (Err ''error writing new path to mmap'', mariInst)
      | Err writeErr \<Rightarrow> (Err writeErr, mariInst)
      | Ok sNode \<Rightarrow>
          (case copy_to_slice (data mariInst) (INode.startOffset node)
                  (LNode.startOffset (leaf node) + 1) sNode of
             Panic \<Rightarrow> (Err ''error writing new path to mmap'', mariInst)
           | Err e \<Rightarrow> (Err e, mariInst)
           | Ok mMap \<Rightarrow>
               (case flushRegionToDisk (mariInst\<lparr>data := mMap\<rparr>) (INode.startOffset node)
                       (getEndOffsetINode node) of
                  (Panic, mariInst') \<Rightarrow> (Err ''error writing new path to mmap'', mariInst')
                | (Err writeErr, mariInst') \<Rightarrow> (Err writeErr, mariInst')
                | (Ok u, mariInst') \<Rightarrow>
                    (case writeLNodeToMemMap mariInst' (leaf node) of
                       (Panic, mariInst'') \<Rightarrow> (Err ''error writing new path to mmap'', mariInst'')
                     | (Err writeErr, mariInst'') \<Rightarrow> (Err writeErr, mariInst'')
                     | (Ok lEndOffset, mariInst'') \<Rightarrow> (Ok lEndOffset, mariInst'')))))"

definition writeNodesToMemMap :: "Mari \<Rightarrow> byte list \<Rightarrow> u64 \<Rightarrow> bool result \<times> Mari" where
  "writeNodesToMemMap mariInst snodes offset =
     (let lenSNodes = (word_of_nat (length snodes) :: u64);
          endOffset = offset + lenSNodes
      in case copy_to_slice (data mariInst) offset endOffset snodes of
           Panic \<Rightarrow> (Err ''error writing new path to mmap'', mariInst)
         | Err e \<Rightarrow> (Err e, mariInst)
         | Ok mMap \<Rightarrow> (Ok True, mariInst\<lparr>data := mMap\<rparr>))"

section \<open>Ordered iteration (iterate.go)\<close>

text \<open>
  \<open>bytes.Compare\<close> and \<open>bytes.Equal\<close> of the Go library compare byte slices
  lexicographically, bytes as unsigned numbers; a nil slice is an empty one
  (\<open>bytes_of\<close>).

  Modelled from the spec: \<open>getIndexForLevel\<close> and \<open>getPosition\<close> are not in
  iterate.go. In the spec's words, \<open>getIndexForLevel(key, level)\<close> is \<open>key[level]\<close>
  if \<open>level < len(key)\<close> and 0 otherwise, and \<open>getPosition(bitmap, i, level)\<close> is the
  number of set bits strictly lower than \<open>i\<close>; bit \<open>i\<close> of the 256-bit bitmap is bit
  \<open>i mod 32\<close> of its word \<open>i div 32\<close> (\<open>isBitSet\<close>).

  \<open>visitNode\<close> is the switch of \<open>iterateRecursive\<close> (iterate.go:25-54): \<open>None\<close> is the
  early return of the accumulator, otherwise it gives the accumulator after the
  emission of the node's own leaf and \<open>startKeyPos\<close>. \<open>iterateChildren\<close> is the loop over
  the children (iterate.go:61-85). A corrupt map can send the recursion through the
  same offset again and again, so the recursion carries fuel: \<open>None\<close> is a run that
  has not returned within the fuel.
\<close>

datatype KeyValuePair = KeyValuePair (Key: "byte list option") (Value: "byte list")

definition bytes_of :: "byte list option \<Rightarrow> byte list" where
  "bytes_of s = (case s of None \<Rightarrow> [] | Some bs \<Rightarrow> bs)"

fun bytes_Compare :: "byte list \<Rightarrow> byte list \<Rightarrow> int" where
  "bytes_Compare [] [] = 0"
| "bytes_Compare [] (y # ys) = - 1"
| "bytes_Compare (x # xs) [] = 1"
| "bytes_Compare (x # xs) (y # ys) =
     (if x < y then - 1 else if y < x then 1 else bytes_Compare xs ys)"

definition bytes_Equal :: "byte list \<Rightarrow> byte list \<Rightarrow> bool" where
  "bytes_Equal a b = (a = b)"

definition getIndexForLevel :: "byte list \<Rightarrow> nat \<Rightarrow> byte" where
  "getIndexForLevel key' level = (if level < length key' then key' ! level else 0)"

definition isBitSet :: "u32 list \<Rightarrow> nat \<Rightarrow> bool" where
  "isBitSet bm i = (i div 32 < length bm \<and> bit (bm ! (i div 32)) (i mod 32))"

definition getPosition :: "u32 list \<Rightarrow> byte \<Rightarrow> nat \<Rightarrow> nat" where
  "getPosition bm index level = length (filter (isBitSet bm) [0..<unat index])"

definition genKeyValPair :: "INode \<Rightarrow> KeyValuePair" where
  "genKeyValPair node = KeyValuePair (LNode.key (leaf node)) (LNode.value' (leaf node))"

definition visitNode ::
  "INode \<Rightarrow> u64 \<Rightarrow> byte list option \<Rightarrow> int \<Rightarrow> nat \<Rightarrow> KeyValuePair list
     \<Rightarrow> (KeyValuePair \<Rightarrow> KeyValuePair) \<Rightarrow> (KeyValuePair list \<times> nat) option" where
  "visitNode currNode minVersion startKey totalResults level acc transform =
     (if level > 0 then
        (if totalResults = int (length acc) then None
         else if length (bytes_of startKey) = level then
           Some (if LNode.version (leaf currNode) \<ge> minVersion
                 then acc @ [transform (genKeyValPair currNode)] else acc, 0)
         else if startKey \<noteq> None \<and> length (bytes_of startKey) > level then
           Some (if bytes_Compare (bytes_of (LNode.key (leaf currNode))) (bytes_of startKey) = 1
                    \<or> bytes_Equal (bytes_of (LNode.key (leaf currNode))) (bytes_of startKey)
                 then (if LNode.version (leaf currNode) \<ge> minVersion
                       then acc @ [transform (genKeyValPair currNode)] else acc)
                 else acc,
                 getPosition (bitmap currNode) (getIndexForLevel (bytes_of startKey) level) level)
         else
           Some (if LNode.version (leaf currNode) \<ge> minVersion
                    \<and> length (bytes_of (LNode.key (leaf currNode))) > 0
                 then acc @ [transform (genKeyValPair currNode)] else acc, 0))
      else Some (acc, getPosition (bitmap currNode) (getIndexForLevel (bytes_of startKey) level) level))"

function iterateRecursive ::
  "nat \<Rightarrow> Mari \<Rightarrow> INode \<Rightarrow> u64 \<Rightarrow> byte list option \<Rightarrow> int \<Rightarrow> nat \<Rightarrow> KeyValuePair list
     \<Rightarrow> (KeyValuePair \<Rightarrow> KeyValuePair) \<Rightarrow> KeyValuePair list result option"
and iterateChildren ::
  "nat \<Rightarrow> Mari \<Rightarrow> INode \<Rightarrow> u64 \<Rightarrow> byte list option \<Rightarrow> int \<Rightarrow> nat \<Rightarrow> nat \<Rightarrow> nat
     \<Rightarrow> KeyValuePair list \<Rightarrow> (KeyValuePair \<Rightarrow> KeyValuePair) \<Rightarrow> KeyValuePair list result option"
where
  "iterateRecursive 0 mariInst currNode minVersion startKey totalResults level acc transform = None"
| "iterateRecursive (Suc fuel) mariInst currNode minVersion startKey totalResults level acc transform =
     (case visitNode currNode minVersion startKey totalResults level acc transform of
        None \<Rightarrow> Some (Ok acc)
      | Some (acc', startKeyPos) \<Rightarrow>
          if length (children currNode) > 0
          then iterateChildren fuel mariInst currNode minVersion startKey totalResults level
                 startKeyPos startKeyPos acc' transform
          else Some (Ok acc'))"
| "iterateChildren fuel mariInst currNode minVersion startKey totalResults level
     startKeyPos currPos acc transform =
     (if totalResults > int (length acc) \<and> currPos < length (children currNode) then
        (case getChildNode mariInst (children currNode ! currPos) (INode.version currNode) of
           Panic \<Rightarrow> Some Panic
         | Err iterErr \<Rightarrow> Some (Err iterErr)
         | Ok childNode \<Rightarrow>
             (case iterateRecursive fuel mariInst childNode minVersion
                     (if currPos = startKeyPos \<and> startKey \<noteq> None then startKey else None)
                     totalResults (level + 1) acc transform of
                None \<Rightarrow> None
              | Some Panic \<Rightarrow> Some Panic
              | Some (Err iterErr) \<Rightarrow> Some (Err iterErr)
              | Some (Ok acc') \<Rightarrow>
                  iterateChildren fuel mariInst currNode minVersion startKey totalResults level
                    startKeyPos (currPos + 1) acc' transform))
      else Some (Ok acc))"
  by pat_completeness auto
termination
  by (relation "inv_image (less_than <*lex*> less_than)
        (\<lambda>x. case x of
           Inl (fuel, mariInst, currNode, rest) \<Rightarrow> (fuel, 0)
         | Inr (fuel, mariInst, currNode, minVersion, startKey, totalResults, level,
                startKeyPos, currPos, rest) \<Rightarrow>
             (fuel, Suc (length (children currNode) - currPos)))")
    auto

declare iterateRecursive.simps [simp del] iterateChildren.simps [simp del]

section \<open>A codec after the layout of the spec, and concrete instances\<close>

text \<open>
  Modelled from the spec: the codec is not in node.go. Section 4.1 of the spec gives a
  little-endian layout: version (8 bytes), start offset (8), end offset (2), then for an
  internal node the bitmap (32), the leaf's offset (8) and one offset (8) per child, and
  for a leaf the key length (1), the key and the value; decoding fails when the length
  disagrees with the end offset. A decoded child or leaf reference carries its offset
  only. The theorems below hold for every codec; this one gives them concrete
  instances.
\<close>

definition le_bytes :: "nat \<Rightarrow> 'a::len word \<Rightarrow> byte list" where
  "le_bytes n w = map (\<lambda>i. word_of_nat (unat w div 256 ^ i mod 256)) [0..<n]"

definition le_word :: "byte list \<Rightarrow> 'a::len word" where
  "le_word bs = word_of_nat (foldr (\<lambda>b acc. unat b + 256 * acc) bs 0)"

definition chunks8 :: "byte list \<Rightarrow> byte list list" where
  "chunks8 bs = map (\<lambda>i. take 8 (drop (8 * i) bs)) [0..<length bs div 8]"

definition spec_deserializeUint16 :: "byte list \<Rightarrow> u16 result" where
  "spec_deserializeUint16 bs = (if length bs = 2 then Ok (le_word bs) else Err ''CorruptNode'')"

definition spec_serializeLNode :: "LNode \<Rightarrow> byte list result" where
  "spec_serializeLNode n =
     Ok (le_bytes 8 (LNode.version n) @ le_bytes 8 (LNode.startOffset n)
         @ le_bytes 2 (LNode.endOffset n) @ [keyLength n]
         @ (case LNode.key n of None \<Rightarrow> [] | Some k \<Rightarrow> k) @ LNode.value' n)"

definition spec_deserializeLNode :: "byte list \<Rightarrow> LNode result" where
  "spec_deserializeLNode bs =
     (if length bs < NodeKeyIdx \<or> unat (le_word (take 2 (drop 16 bs)) :: u16) + 1 \<noteq> length bs
         \<or> length bs < NodeKeyIdx + unat (bs ! 18)
      then Err ''CorruptNode''
      else Ok (LNode (le_word (take 8 bs)) (le_word (take 8 (drop 8 bs)))
                 (le_word (take 2 (drop 16 bs))) (bs ! 18)
                 (Some (take (unat (bs ! 18)) (drop NodeKeyIdx bs)))
                 (drop (NodeKeyIdx + unat (bs ! 18)) bs)))"

definition spec_serializeINode :: "INode \<Rightarrow> bool \<Rightarrow> byte list result" where
  "spec_serializeINode n serializePath =
     (if None \<in> set (children n) then Panic
      else Ok (le_bytes 8 (INode.version n) @ le_bytes 8 (INode.startOffset n)
         @ le_bytes 2 (INode.endOffset n) @ concat (map (le_bytes 4) (bitmap n))
         @ le_bytes 8 (LNode.startOffset (leaf n))
         @ concat (map (\<lambda>c. case c of None \<Rightarrow> [] | Some c' \<Rightarrow> le_bytes 8 (INode.startOffset c'))
                     (children n))))"

definition spec_deserializeINode :: "byte list \<Rightarrow> INode result" where
  "spec_deserializeINode bs =
     (let bm = map (\<lambda>i. le_word (take 4 (drop (18 + 4 * i) bs)) :: u32) [0..<8] in
      if length bs < NodeChildrenIdx \<or> unat (le_word (take 2 (drop 16 bs)) :: u16) + 1 \<noteq> length bs
         \<or> length bs \<noteq> NodeChildrenIdx + popcount bm * NodeChildPtrSize
      then Err ''CorruptNode''
      else Ok (INode (le_word (take 8 bs)) (le_word (take 8 (drop 8 bs)))
                 (le_word (take 2 (drop 16 bs))) bm
                 (LNode 0 (le_word (take 8 (drop 50 bs))) 0 0 None [])
                 (map (\<lambda>c. Some (INode 0 (le_word c) 0 [0, 0, 0, 0, 0, 0, 0, 0]
                                    (LNode 0 0 0 0 None []) []))
                    (chunks8 (drop NodeChildrenIdx bs)))))"

definition spec_mari :: "byte list \<Rightarrow> Mari" where
  "spec_mari mMap =
     \<lparr>data = mMap, flushed = [],
      deserializeUint16 = spec_deserializeUint16,
      deserializeINode = spec_deserializeINode,
      deserializeLNode = spec_deserializeLNode,
      serializeINode = spec_serializeINode,
      serializeLNode = spec_serializeLNode,
      flushOutcome = (\<lambda>start end'. Ok ())\<rparr>"


text \<open>
  A trie that holds the one key \<open>ab\<close> (bytes 97, 98) with the value \<open>1\<close>, as a writer
  sees it: every node has the version 1 of the transaction and no offset yet. Bit 97 is
  bit 1 of word 3 of the bitmap, bit 98 is bit 2 of word 3. \<open>sentinel\<close> is the leaf
  of a node at which no key ends.
\<close>

definition sentinel :: LNode where
  "sentinel = LNode 0 0 0 0 None []"

definition node_ab :: INode where
  "node_ab = INode 1 0 0 [0, 0, 0, 0, 0, 0, 0, 0] (LNode 1 0 0 2 (Some [97, 98]) [49]) []"

definition node_a :: INode where
  "node_a = INode 1 0 0 [0, 0, 0, 4, 0, 0, 0, 0] sentinel [Some node_ab]"

definition root_ab :: INode where
  "root_ab = INode 1 0 0 [0, 0, 0, 2, 0, 0, 0, 0] sentinel [Some node_a]"

text \<open>
  A memory map that holds, at offset 64, an internal node without children (58 bytes)
  and, at offset 122, its leaf with the key \<open>a\<close> and the value \<open>1\<close> (21 bytes), in
  the layout of the codec above.
\<close>

definition ex_mMap :: "byte list" where
  "ex_mMap = replicate 64 0
     @ [1, 0, 0, 0, 0, 0, 0, 0, 64, 0, 0, 0, 0, 0, 0, 0, 57, 0,
        0, 0, 0, 0, 0, 0, 0, 0, 0, 0, 0, 0, 0, 0, 0, 0, 0, 0, 0, 0, 0, 0, 0, 0, 0, 0, 0, 0, 0, 0, 0, 0,
        122, 0, 0, 0, 0, 0, 0, 0,
        1, 0, 0, 0, 0, 0, 0, 0, 122, 0, 0, 0, 0, 0, 0, 0, 20, 0, 1, 97, 49]"

text \<open>
  An internal node without children at offset 64 whose leaf (the key \<open>a\<close>, the value
  \<open>1\<close>) follows it at offset 122, to be written into an empty map.
\<close>

definition ex_written :: INode where
  "ex_written = INode 1 64 57 [0, 0, 0, 0, 0, 0, 0, 0] (LNode 1 122 20 1 (Some [97]) [49]) []"


section \<open>Well-formed tries and their content\<close>

text \<open>
  The shape that the invariants of the spec give a trie (I2, I6 and the data model: the
  leaf of a node is the value whose key ends exactly at the node's level). A node at the
  end of \<open>path\<close> is well formed to a depth when its own leaf is the sentinel or carries
  the key \<open>path\<close>, its children are, in order, the nodes of the set bits of its bitmap
  in ascending order (\<open>set_bits\<close>), and each child, as \<open>getChildNode\<close> materialises it,
  is well formed at \<open>path\<close> extended by the byte of its bit. The depth bounds the height.

  \<open>nodes_of\<close> are the nodes reached from a root through \<open>getChildNode\<close>;
  \<open>stored_pairs\<close> is the set of the key/value pairs of their leaves with a real key and
  a version from \<open>minVersion\<close> on. \<open>key_less\<close> is the strict lexicographic order of
  the keys, as \<open>bytes.Compare\<close> decides it. \<open>preorder_pairs\<close> is the depth-first,
  bit-index-ascending traversal of invariant I6, the node's own pair before its
  children; the root (level 0) has no pair of its own.
\<close>

definition set_bits :: "u32 list \<Rightarrow> nat list" where
  "set_bits bm = filter (isBitSet bm) [0..<256]"

fun wf_trie :: "Mari \<Rightarrow> nat \<Rightarrow> byte list \<Rightarrow> INode \<Rightarrow> bool" where
  "wf_trie mariInst 0 path node = False"
| "wf_trie mariInst (Suc depth) path node =
     ((bytes_of (LNode.key (leaf node)) = []
        \<or> (path \<noteq> [] \<and> bytes_of (LNode.key (leaf node)) = path))
      \<and> list_all2
          (\<lambda>childOffset b.
             case getChildNode mariInst childOffset (INode.version node) of
               Ok childNode \<Rightarrow> wf_trie mariInst depth (path @ [word_of_nat b]) childNode
             | Err e \<Rightarrow> False
             | Panic \<Rightarrow> False)
          (children node) (set_bits (bitmap node)))"

definition own_pair :: "u64 \<Rightarrow> nat \<Rightarrow> INode \<Rightarrow> KeyValuePair list" where
  "own_pair minVersion level node =
     (if 0 < level \<and> minVersion \<le> LNode.version (leaf node)
         \<and> 0 < length (bytes_of (LNode.key (leaf node)))
      then [genKeyValPair node] else [])"

fun preorder_pairs :: "Mari \<Rightarrow> nat \<Rightarrow> u64 \<Rightarrow> nat \<Rightarrow> INode \<Rightarrow> KeyValuePair list" where
  "preorder_pairs mariInst 0 minVersion level node = []"
| "preorder_pairs mariInst (Suc depth) minVersion level node =
     own_pair minVersion level node
     @ concat (map (\<lambda>childOffset.
                 case getChildNode mariInst childOffset (INode.version node) of
                   Ok childNode \<Rightarrow> preorder_pairs mariInst depth minVersion (level + 1) childNode
                 | Err e \<Rightarrow> []
                 | Panic \<Rightarrow> [])
               (children node))"

inductive_set nodes_of :: "Mari \<Rightarrow> INode \<Rightarrow> INode set" for mariInst :: Mari and root :: INode where
  root: "root \<in> nodes_of mariInst root"
| child: "node \<in> nodes_of mariInst root \<Longrightarrow> childOffset \<in> set (children node)
     \<Longrightarrow> getChildNode mariInst childOffset (INode.version node) = Ok childNode
     \<Longrightarrow> childNode \<in> nodes_of mariInst root"

definition stored_pairs :: "Mari \<Rightarrow> u64 \<Rightarrow> INode \<Rightarrow> KeyValuePair set" where
  "stored_pairs mariInst minVersion root =
     {genKeyValPair node | node. node \<in> nodes_of mariInst root
        \<and> 0 < length (bytes_of (LNode.key (leaf node)))
        \<and> minVersion \<le> LNode.version (leaf node)}"

definition key_less :: "KeyValuePair \<Rightarrow> KeyValuePair \<Rightarrow> bool" where
  "key_less p q = (bytes_Compare (bytes_of (Key p)) (bytes_of (Key q)) = - 1)"


definition child_pairs :: "Mari \<Rightarrow> nat \<Rightarrow> u64 \<Rightarrow> nat \<Rightarrow> INode \<Rightarrow> INode option \<Rightarrow> KeyValuePair list" where
  "child_pairs mariInst depth minVersion level node childOffset =
     (case getChildNode mariInst childOffset (INode.version node) of
        Ok childNode \<Rightarrow> preorder_pairs mariInst depth minVersion (level + 1) childNode
      | Err e \<Rightarrow> []
      | Panic \<Rightarrow> [])"


section \<open>Lemmas\<close>

lemma go_copy_make_INodes: "go_copy (make_INodes (length cs)) cs = cs"
  by (simp add: go_copy_def make_INodes_def)

lemma children_copyINode: "children (copyINode nodeCopy node) = children node"
  by (simp add: copyINode_def go_copy_make_INodes)

lemma bit_u32_less: "bit (w :: u32) j \<Longrightarrow> j < 32"
  using bit_imp_le_length [of w j] by simp

lemma calculateHammingWeight_card: "calculateHammingWeight w = int (card {j. bit w j})"
proof -
  have "{j. bit w j} = set (filter (bit w) [0..<32])"
    by (auto dest: bit_u32_less)
  moreover have "distinct (filter (bit w) [0..<32])"
    by simp
  ultimately show ?thesis
    by (simp only: calculateHammingWeight_def distinct_card)
qed

lemma foldl_hamming:
  "foldl (\<lambda>t w. t + calculateHammingWeight w) a bm
     = a + int (sum_list (map (\<lambda>w. card {j. bit w j}) bm))"
  by (induction bm arbitrary: a) (simp_all add: calculateHammingWeight_card)

lemma card_bits_u32_le: "card {j. bit (w :: u32) j} \<le> 32"
proof -
  have "{j. bit w j} \<subseteq> {0..<32}"
    by (auto dest: bit_u32_less)
  then have "card {j. bit w j} \<le> card {0..<(32::nat)}"
    by (intro card_mono) simp_all
  then show ?thesis by simp
qed

lemma sum_bits_le: "sum_list (map (\<lambda>w :: u32. card {j. bit w j}) bm) \<le> 32 * length bm"
proof (induction bm)
  case Nil
  then show ?case by simp
next
  case (Cons w bm)
  then show ?case using card_bits_u32_le [of w] by simp
qed

lemma sum_bits_popcount: "sum_list (map (\<lambda>w. card {j. bit w j}) bm) = popcount bm"
  by (induction bm) (simp_all add: popcount_def calculateHammingWeight_card)

subsection \<open>Reading through the memory map\<close>

lemma unat_plus_nat:
  fixes off :: u64
  assumes "unat off + k < 2 ^ 64"
  shows "unat (off + word_of_nat k) = unat off + k"
proof -
  have "unat (off + word_of_nat k) = (unat off + k) mod 2 ^ 64"
    by (simp add: unat_word_ariths unat_of_nat mod_add_right_eq)
  then show ?thesis using assms by simp
qed

lemma go_slice_window:
  fixes off :: u64
  assumes "length m < 2 ^ 63" "k < 2 ^ 63"
  shows "go_slice m off (off + word_of_nat k)
           = (if unat off + k \<le> length m then Ok (take k (drop (unat off) m)) else Panic)"
proof (cases "unat off < 2 ^ 63")
  case True
  then have "unat off + k < 2 ^ 64" using assms(2) by simp
  then have "unat (off + word_of_nat k) = unat off + k" by (rule unat_plus_nat)
  then show ?thesis by (simp add: go_slice_def)
next
  case False
  then have "\<not> (unat off \<le> unat (off + word_of_nat k) \<and> unat (off + word_of_nat k) \<le> length m)"
    using assms(1) by simp
  moreover have "\<not> unat off + k \<le> length m"
    using False assms(1) by simp
  ultimately show ?thesis by (simp add: go_slice_def)
qed

lemma slice_node:
  fixes off :: u64 and e :: u16
  assumes "length m < 2 ^ 63"
  shows "go_slice m off (off + ucast e + 1)
           = (if unat off + unat e + 1 \<le> length m
              then Ok (take (unat e + 1) (drop (unat off) m)) else Panic)"
proof -
  have "unat e < 2 ^ 16" using unsigned_less [of e, where ?'a = nat] by simp
  then have k: "unat e + 1 < (2::nat) ^ 63" by simp
  have eq: "off + ucast e + 1 = off + word_of_nat (unat e + 1)"
    by simp
  have "go_slice m off (off + word_of_nat (unat e + 1))
          = (if unat off + (unat e + 1) \<le> length m
             then Ok (take (unat e + 1) (drop (unat off) m)) else Panic)"
    by (rule go_slice_window [OF assms k])
  then show ?thesis
    unfolding eq by (simp only: add.assoc)
qed

lemma slice_end_offset:
  fixes off :: u64
  assumes "length m < 2 ^ 63" "unat off < 2 ^ 63"
  shows "go_slice m (off + word_of_nat NodeEndOffsetIdx)
             (off + word_of_nat NodeEndOffsetIdx + word_of_nat OffsetSize16)
           = (if unat off + 18 \<le> length m then Ok (take 2 (drop (unat off + 16) m)) else Panic)"
proof -
  have "unat off + 16 < 2 ^ 64" using assms(2) by simp
  then have u: "unat (off + word_of_nat 16) = unat off + 16" by (rule unat_plus_nat)
  have "(2::nat) < 2 ^ 63" by simp
  from go_slice_window [OF assms(1) this, of "off + word_of_nat 16"]
  have "go_slice m (off + word_of_nat 16) (off + word_of_nat 16 + word_of_nat 2)
          = (if unat off + 16 + 2 \<le> length m then Ok (take 2 (drop (unat off + 16) m)) else Panic)"
    by (simp only: u)
  then show ?thesis
    by (simp add: NodeEndOffsetIdx_def OffsetSize16_def)
qed


lemma recover_with_no_panic: "recover_with msg r \<noteq> Panic"
  by (simp add: recover_with_def split: result.splits)

lemma recover_with_Ok: "recover_with msg r = Ok v \<longleftrightarrow> r = Ok v"
  by (simp add: recover_with_def split: result.splits)

lemma then_result_Ok:
  "then_result r f = Ok v \<longleftrightarrow> (\<exists>x. r = Ok x \<and> f x = Ok v)"
  by (simp add: then_result_def split: result.splits)

lemma go_slice_Ok_bounds:
  "go_slice m lo hi = Ok bs \<Longrightarrow> unat lo \<le> length m"
  by (simp add: go_slice_def split: if_splits)

lemma readLNode_Ok_iff:
  assumes "length (data m) < 2 ^ 63"
  shows "readLNodeFromMemMap m off = Ok l \<longleftrightarrow>
         (\<exists>e. unat off + 18 \<le> length (data m)
            \<and> deserializeUint16 m (take 2 (drop (unat off + 16) (data m))) = Ok e
            \<and> unat off + unat e + 1 \<le> length (data m)
            \<and> deserializeLNode m (take (unat e + 1) (drop (unat off) (data m))) = Ok l)"
proof (cases "unat off < 2 ^ 63")
  case True
  show ?thesis
    unfolding readLNodeFromMemMap_def Let_def recover_with_Ok then_result_Ok
      slice_end_offset [OF assms True] slice_node [OF assms]
    by (auto split: if_splits)
next
  case False
  then have far: "\<And>e::u16. \<not> unat off + unat e + 1 \<le> length (data m)"
    using assms by simp
  have "readLNodeFromMemMap m off \<noteq> Ok l"
    unfolding readLNodeFromMemMap_def Let_def recover_with_Ok then_result_Ok slice_node [OF assms]
    using far by (auto split: if_splits)
  moreover have "\<not> unat off + 18 \<le> length (data m)"
    using False assms by simp
  ultimately show ?thesis by blast
qed

lemma readINode_Ok_iff:
  assumes "length (data m) < 2 ^ 63"
  shows "readINodeFromMemMap m off = Ok n \<longleftrightarrow>
         (\<exists>e n0 l. unat off + 18 \<le> length (data m)
            \<and> deserializeUint16 m (take 2 (drop (unat off + 16) (data m))) = Ok e
            \<and> unat off + unat e + 1 \<le> length (data m)
            \<and> deserializeINode m (take (unat e + 1) (drop (unat off) (data m))) = Ok n0
            \<and> readLNodeFromMemMap m (LNode.startOffset (leaf n0)) = Ok l
            \<and> n = INode (INode.version n0) (INode.startOffset n0) (INode.endOffset n0)
                    (bitmap n0) l (children n0))"
proof (cases "unat off < 2 ^ 63")
  case True
  show ?thesis
    unfolding readINodeFromMemMap_def Let_def recover_with_Ok then_result_Ok
      slice_end_offset [OF assms True] slice_node [OF assms]
    by (auto split: if_splits)
next
  case False
  then have far: "\<And>e::u16. \<not> unat off + unat e + 1 \<le> length (data m)"
    using assms by simp
  have "readINodeFromMemMap m off \<noteq> Ok n"
    unfolding readINodeFromMemMap_def Let_def recover_with_Ok then_result_Ok slice_node [OF assms]
    using far by (auto split: if_splits)
  moreover have "\<not> unat off + 18 \<le> length (data m)"
    using False assms by simp
  ultimately show ?thesis by blast
qed

lemma readLNode_no_panic: "readLNodeFromMemMap m off \<noteq> Panic"
  by (simp add: readLNodeFromMemMap_def recover_with_no_panic)

lemma readINode_no_panic: "readINodeFromMemMap m off \<noteq> Panic"
  by (simp add: readINodeFromMemMap_def recover_with_no_panic)

lemma then_result_id: "then_result r (\<lambda>v. Ok v) = r"
  by (simp add: then_result_def split: result.splits)

lemma not_Ok_Err: "r \<noteq> Panic \<Longrightarrow> (\<forall>v. r \<noteq> Ok v) \<Longrightarrow> \<exists>msg. r = Err msg"
  by (cases r) simp_all

lemma length_ex_mMap: "length ex_mMap = 143"
  by (simp add: ex_mMap_def)

lemma readLNode_ex_mMap: "readLNodeFromMemMap (spec_mari ex_mMap) 122 = Ok (LNode 1 122 20 1 (Some [97]) [49])"
  by (simp add: readLNodeFromMemMap_def spec_mari_def ex_mMap_def go_slice_def then_result_def
      recover_with_def NodeEndOffsetIdx_def OffsetSize16_def spec_deserializeUint16_def
      spec_deserializeLNode_def le_word_def NodeKeyIdx_def)

lemma popcount_zero: "popcount [0, 0, 0, 0, 0, 0, 0, 0] = 0"
  by code_simp

lemma readINode_ex_mMap: "readINodeFromMemMap (spec_mari ex_mMap) 64
    = Ok (INode 1 64 57 [0, 0, 0, 0, 0, 0, 0, 0] (LNode 1 122 20 1 (Some [97]) [49]) [])"
  by (simp add: readINodeFromMemMap_def readLNode_ex_mMap [unfolded spec_mari_def ex_mMap_def] spec_mari_def ex_mMap_def go_slice_def then_result_def
      recover_with_def NodeEndOffsetIdx_def OffsetSize16_def spec_deserializeUint16_def
      spec_deserializeINode_def le_word_def NodeChildrenIdx_def NodeChildPtrSize_def
      chunks8_def upt_rec popcount_zero)


subsection \<open>The limit of the iteration\<close>

lemma visitNode_length:
  assumes "visitNode currNode minVersion startKey totalResults level acc transform = Some (acc', p)"
    and "int (length acc) \<le> totalResults"
  shows "int (length acc') \<le> totalResults"
  using assms by (auto simp: visitNode_def split: if_splits)

lemma iterate_limit:
  shows "iterateRecursive fuel mariInst currNode minVersion startKey totalResults level acc transform
           = Some (Ok r) \<Longrightarrow> int (length acc) \<le> totalResults \<Longrightarrow> int (length r) \<le> totalResults"
    and "iterateChildren fuel mariInst currNode minVersion startKey totalResults level
           startKeyPos currPos acc transform = Some (Ok r)
           \<Longrightarrow> int (length acc) \<le> totalResults \<Longrightarrow> int (length r) \<le> totalResults"
proof (induction fuel mariInst currNode minVersion startKey totalResults level acc transform
         and fuel mariInst currNode minVersion startKey totalResults level startKeyPos currPos acc
           transform
       arbitrary: r and r rule: iterateRecursive_iterateChildren.induct)
  case (1 mariInst currNode minVersion startKey totalResults level acc transform)
  then show ?case by (simp add: iterateRecursive.simps)
next
  case (2 fuel mariInst currNode minVersion startKey totalResults level acc transform)
  show ?case
  proof (cases "visitNode currNode minVersion startKey totalResults level acc transform")
    case None
    with "2.prems" show ?thesis by (simp add: iterateRecursive.simps)
  next
    case (Some x2)
    obtain acc' p where x2: "x2 = (acc', p)" by (cases x2)
    have len: "int (length acc') \<le> totalResults"
      using visitNode_length Some x2 "2.prems"(2) by blast
    show ?thesis
    proof (cases "0 < length (children currNode)")
      case True
      with "2.prems"(1) Some x2
      have "iterateChildren fuel mariInst currNode minVersion startKey totalResults level
              p p acc' transform = Some (Ok r)"
        by (simp add: iterateRecursive.simps)
      then show ?thesis
        using "2.IH" [OF Some x2 [symmetric] True] len by blast
    next
      case False
      with "2.prems"(1) Some x2 len show ?thesis by (simp add: iterateRecursive.simps)
    qed
  qed
next
  case (3 fuel mariInst currNode minVersion startKey totalResults level startKeyPos currPos acc
      transform)
  show ?case
  proof (cases "int (length acc) < totalResults \<and> currPos < length (children currNode)")
    case False
    with "3.prems" show ?thesis
      by (subst (asm) iterateChildren.simps) (simp split: if_splits)
  next
    case True
    from "3.prems"(1) True obtain childNode acc' where
      c: "getChildNode mariInst (children currNode ! currPos) (INode.version currNode) = Ok childNode"
      and r1: "iterateRecursive fuel mariInst childNode minVersion
            (if currPos = startKeyPos \<and> startKey \<noteq> None then startKey else None)
            totalResults (level + 1) acc transform = Some (Ok acc')"
      and r2: "iterateChildren fuel mariInst currNode minVersion startKey totalResults level
            startKeyPos (currPos + 1) acc' transform = Some (Ok r)"
      by (subst (asm) iterateChildren.simps)
        (auto split: if_splits result.splits option.splits)
    have "int (length acc') \<le> totalResults"
      using "3.IH"(1) [OF True c r1] "3.prems"(2) by blast
    then show ?thesis
      using "3.IH"(2) [OF True c r1 refl r2] by blast
  qed
qed


lemma iterateChildren_at_limit:
  "int (length acc) = totalResults \<Longrightarrow>
   iterateChildren fuel mariInst currNode minVersion startKey totalResults level
     startKeyPos currPos acc transform = Some (Ok acc)"
  by (subst iterateChildren.simps) simp

lemma iterateRecursive_at_limit:
  assumes "int (length acc) = totalResults"
  shows "iterateRecursive (Suc fuel) mariInst currNode minVersion startKey totalResults level
           acc transform = Some (Ok acc)"
proof (cases "level > 0")
  case True
  then have "visitNode currNode minVersion startKey totalResults level acc transform = None"
    using assms by (simp add: visitNode_def)
  then show ?thesis by (simp add: iterateRecursive.simps)
next
  case False
  then have "visitNode currNode minVersion startKey totalResults level acc transform
      = Some (acc, getPosition (bitmap currNode) (getIndexForLevel (bytes_of startKey) level) level)"
    by (simp add: visitNode_def)
  then show ?thesis
    using assms by (simp add: iterateRecursive.simps iterateChildren_at_limit)
qed

lemma visitNode_emission:
  assumes "visitNode currNode minVersion startKey totalResults level acc transform = Some (acc', p)"
  shows "acc' = acc \<or>
         (acc' = acc @ [transform (genKeyValPair currNode)]
          \<and> minVersion \<le> LNode.version (leaf currNode)
          \<and> (length (bytes_of startKey) \<noteq> level \<longrightarrow>
                0 < length (bytes_of (LNode.key (leaf currNode)))))"
proof -
  have ne: "\<And>a b. a \<noteq> [] \<Longrightarrow> bytes_Compare [] a \<noteq> 1"
    by (case_tac a) simp_all
  have ne2: "level < length (bytes_of startKey) \<Longrightarrow> bytes_of startKey \<noteq> []"
    by auto
  show ?thesis
    using assms ne [of "bytes_of startKey"] ne2
    by (auto simp: visitNode_def bytes_Equal_def split: if_splits)
qed

lemma getPosition_root_ab: "getPosition [0, 0, 0, 2, 0, 0, 0, 0] 97 0 = 0"
  by (simp add: getPosition_def isBitSet_def upt_rec nth_Cons')

lemma iterate_root_ab_from_a:
  "iterateRecursive (Suc (Suc (Suc 0))) (spec_mari []) root_ab 0 (Some [97]) 10 0 [] (\<lambda>kv. kv)
     = Some (Ok [KeyValuePair None [], KeyValuePair (Some [97, 98]) [49]])"
  by (simp add: iterateRecursive.simps iterateChildren.simps visitNode_def getChildNode_def
      root_ab_def node_a_def node_ab_def sentinel_def genKeyValPair_def bytes_of_def
      getIndexForLevel_def getPosition_root_ab bytes_Equal_def)

lemma iterate_root_ab_limit_1:
  "iterateRecursive (Suc (Suc (Suc 0))) (spec_mari []) root_ab 0 None 1 0 [] (\<lambda>kv. kv)
     = Some (Ok [KeyValuePair (Some [97, 98]) [49]])"
  by (simp add: iterateRecursive.simps iterateChildren.simps visitNode_def getChildNode_def
      root_ab_def node_a_def node_ab_def sentinel_def genKeyValPair_def bytes_of_def
      getIndexForLevel_def getPosition_def bytes_Equal_def)

subsection \<open>Panics of the map access\<close>

lemma copy_to_slice_out_of_range:
  "length mMap < unat hi \<Longrightarrow> copy_to_slice mMap lo hi src = Panic"
  by (simp add: copy_to_slice_def)

lemma go_slice_out_of_range:
  "length mMap < unat hi \<Longrightarrow> go_slice mMap lo hi = Panic"
  by (simp add: go_slice_def)

lemma read_end_offset_panics:
  fixes off :: u64
  assumes "length mMap < unat off + 18" "unat off + 18 < 2 ^ 64"
  shows "go_slice mMap (off + word_of_nat NodeEndOffsetIdx)
           (off + word_of_nat NodeEndOffsetIdx + word_of_nat OffsetSize16) = Panic"
proof -
  have "off + word_of_nat NodeEndOffsetIdx + word_of_nat OffsetSize16 = off + word_of_nat 18"
    by (simp add: NodeEndOffsetIdx_def OffsetSize16_def)
  moreover have "unat (off + word_of_nat 18) = unat off + 18"
    using assms(2) by (rule unat_plus_nat)
  ultimately show ?thesis
    using assms(1) by (simp only: go_slice_out_of_range)
qed

lemma readLNode_out_of_range:
  assumes "length (data m) < unat off + 18" "unat off + 18 < 2 ^ 64"
  shows "readLNodeFromMemMap m off = Err ''error reading node from mem map''"
  using read_end_offset_panics [OF assms]
  by (simp add: readLNodeFromMemMap_def Let_def then_result_def recover_with_def)

lemma readINode_out_of_range:
  assumes "length (data m) < unat off + 18" "unat off + 18 < 2 ^ 64"
  shows "readINodeFromMemMap m off = Err ''error reading node from mem map''"
  using read_end_offset_panics [OF assms]
  by (simp add: readINodeFromMemMap_def Let_def then_result_def recover_with_def)

lemma writeNodes_out_of_range:
  assumes "length (data m) < unat off + length sn" "unat off + length sn < 2 ^ 64"
  shows "writeNodesToMemMap m sn off = (Err ''error writing new path to mmap'', m)"
proof -
  have "unat (off + word_of_nat (length sn)) = unat off + length sn"
    using assms(2) by (rule unat_plus_nat)
  then have "copy_to_slice (data m) off (off + word_of_nat (length sn)) sn = Panic"
    using assms(1) by (simp only: copy_to_slice_out_of_range)
  then show ?thesis
    by (simp add: writeNodesToMemMap_def Let_def)
qed

lemma writeLNode_out_of_range:
  assumes "serializeLNode m l = Ok s"
    and "length (data m) < unat (LNode.startOffset l) + unat (LNode.endOffset l) + 1"
    and "unat (LNode.startOffset l) + unat (LNode.endOffset l) + 1 < 2 ^ 64"
  shows "writeLNodeToMemMap m l = (Err ''error writing new path to mmap'', m)"
proof -
  have "getEndOffsetLNode l + 1 = LNode.startOffset l + word_of_nat (unat (LNode.endOffset l) + 1)"
    by (simp add: getEndOffsetLNode_def)
  moreover have "unat (LNode.startOffset l + word_of_nat (unat (LNode.endOffset l) + 1))
      = unat (LNode.startOffset l) + (unat (LNode.endOffset l) + 1)"
    using assms(3) by (intro unat_plus_nat) simp
  ultimately have "copy_to_slice (data m) (LNode.startOffset l) (getEndOffsetLNode l + 1) s = Panic"
    using assms(2) by (simp only: copy_to_slice_out_of_range add.assoc)
  then show ?thesis
    using assms(1) by (simp add: writeLNodeToMemMap_def Let_def)
qed

lemma writeINode_out_of_range:
  assumes "serializeINode m n False = Ok s"
    and "length (data m) < unat (LNode.startOffset (leaf n)) + 1"
    and "unat (LNode.startOffset (leaf n)) + 1 < 2 ^ 64"
  shows "writeINodeToMemMap m n = (Err ''error writing new path to mmap'', m)"
proof -
  have "unat (LNode.startOffset (leaf n) + word_of_nat 1) = unat (LNode.startOffset (leaf n)) + 1"
    using assms(3) by (rule unat_plus_nat)
  then have "copy_to_slice (data m) (INode.startOffset n) (LNode.startOffset (leaf n) + 1) s = Panic"
    using assms(2) copy_to_slice_out_of_range [of "data m" "LNode.startOffset (leaf n) + 1"]
    by simp
  then show ?thesis
    using assms(1) by (simp add: writeINodeToMemMap_def Let_def)
qed

lemma result_cases: "r \<noteq> Panic \<Longrightarrow> (\<exists>v. r = Ok v) \<or> (\<exists>msg. r = Err msg)"
  by (cases r) simp_all

lemma writeLNode_no_panic: "fst (writeLNodeToMemMap m l) \<noteq> Panic"
  by (simp add: writeLNodeToMemMap_def Let_def split: result.splits prod.splits)

lemma writeINode_no_panic: "fst (writeINodeToMemMap m n) \<noteq> Panic"
  by (simp add: writeINodeToMemMap_def Let_def split: result.splits prod.splits)

lemma writeNodes_no_panic: "fst (writeNodesToMemMap m sn off) \<noteq> Panic"
  by (simp add: writeNodesToMemMap_def Let_def split: result.splits prod.splits)


subsection \<open>Iteration from a nil start key\<close>

lemma visitNode_nil_pos:
  assumes "0 < level" "totalResults \<noteq> int (length acc)"
  shows "visitNode node minVersion None totalResults level acc transform
           = Some (acc @ map transform (own_pair minVersion level node), 0)"
  using assms by (simp add: visitNode_def own_pair_def bytes_of_def)

lemma visitNode_nil_root:
  "visitNode node minVersion None totalResults 0 acc transform
     = Some (acc @ map transform (own_pair minVersion 0 node), 0)"
  by (simp add: visitNode_def own_pair_def bytes_of_def getIndexForLevel_def getPosition_def)


lemma preorder_pairs_Suc:
  "preorder_pairs m (Suc d) mv level n
     = own_pair mv level n @ concat (map (child_pairs m d mv level n) (children n))"
  by (simp add: child_pairs_def [abs_def])

lemma take_append_acc:
  fixes lim :: int
  assumes "int (length acc) \<le> lim"
  shows "(acc @ map tr (take (nat (lim - int (length acc))) xs))
            @ map tr (take (nat (lim - int (length (acc @ map tr (take (nat (lim - int (length acc))) xs))))) ys)
         = acc @ map tr (take (nat (lim - int (length acc))) (xs @ ys))"
proof -
  define k where "k = nat (lim - int (length acc))"
  have "nat (lim - int (length (acc @ map tr (take k xs)))) = k - length (take k xs)"
    using assms by (simp add: k_def)
  moreover have "k - length (take k xs) = k - length xs"
    by simp
  ultimately show ?thesis
    unfolding k_def [symmetric] by (simp only: take_append map_append append_assoc)
qed

lemma take_length_bound:
  fixes lim :: int
  assumes "int (length acc) \<le> lim"
  shows "int (length (acc @ map tr (take (nat (lim - int (length acc))) xs))) \<le> lim"
  using assms by simp

lemma iterateChildren_nil:
  assumes IH: "\<And>c path acc. wf_trie m d path c \<Longrightarrow> int (length acc) \<le> lim \<Longrightarrow>
      iterateRecursive fuel m c mv None lim (level + 1) acc tr
        = Some (Ok (acc @ map tr (take (nat (lim - int (length acc)))
                                    (preorder_pairs m d mv (level + 1) c))))"
    and ch: "\<And>r. r < length (children n) \<Longrightarrow>
      \<exists>c path. getChildNode m (children n ! r) (INode.version n) = Ok c \<and> wf_trie m d path c"
    and len: "int (length acc) \<le> lim"
  shows "iterateChildren fuel m n mv None lim level skp cp acc tr
           = Some (Ok (acc @ map tr (take (nat (lim - int (length acc)))
                 (concat (map (child_pairs m d mv level n) (drop cp (children n)))))))"
  using len
proof (induction "length (children n) - cp" arbitrary: cp acc)
  case 0
  then have "drop cp (children n) = []" by simp
  moreover have "iterateChildren fuel m n mv None lim level skp cp acc tr = Some (Ok acc)"
    using 0 by (subst iterateChildren.simps) simp
  ultimately show ?case by simp
next
  case (Suc k)
  then have cp: "cp < length (children n)" by simp
  show ?case
  proof (cases "int (length acc) < lim")
    case False
    then have "nat (lim - int (length acc)) = 0" by simp
    moreover have "iterateChildren fuel m n mv None lim level skp cp acc tr = Some (Ok acc)"
      using False by (subst iterateChildren.simps) simp
    ultimately show ?thesis by simp
  next
    case True
    from ch [OF cp] obtain c path where
      c: "getChildNode m (children n ! cp) (INode.version n) = Ok c" and wf: "wf_trie m d path c"
      by blast
    define acc1 where "acc1 = acc @ map tr (take (nat (lim - int (length acc)))
                                    (preorder_pairs m d mv (level + 1) c))"
    have r1: "iterateRecursive fuel m c mv None lim (level + 1) acc tr = Some (Ok acc1)"
      unfolding acc1_def using IH [OF wf Suc.prems] .
    have len1: "int (length acc1) \<le> lim"
      unfolding acc1_def using Suc.prems by (rule take_length_bound)
    have k: "k = length (children n) - (cp + 1)"
      using Suc.hyps(2) by simp
    have step: "iterateChildren fuel m n mv None lim level skp cp acc tr
        = iterateChildren fuel m n mv None lim level skp (cp + 1) acc1 tr"
      using True cp c r1 by (subst iterateChildren.simps) simp
    have dr: "drop cp (children n) = children n ! cp # drop (cp + 1) (children n)"
      using cp by (simp add: Cons_nth_drop_Suc)
    have cpairs: "child_pairs m d mv level n (children n ! cp) = preorder_pairs m d mv (level + 1) c"
      by (simp add: child_pairs_def c)
    show ?thesis
      unfolding step Suc.hyps(1) [OF k len1] dr
      unfolding acc1_def
      by (simp only: list.map concat.simps cpairs take_append_acc [OF Suc.prems])
  qed
qed


lemma wf_trie_children:
  assumes "wf_trie m (Suc d) path n" "r < length (children n)"
  shows "\<exists>c. getChildNode m (children n ! r) (INode.version n) = Ok c
            \<and> wf_trie m d (path @ [word_of_nat (set_bits (bitmap n) ! r)]) c"
proof -
  from assms(1) have "list_all2
          (\<lambda>childOffset b.
             case getChildNode m childOffset (INode.version n) of
               Ok childNode \<Rightarrow> wf_trie m d (path @ [word_of_nat b]) childNode
             | Err e \<Rightarrow> False
             | Panic \<Rightarrow> False)
          (children n) (set_bits (bitmap n))"
    by simp
  from list_all2_nthD [OF this assms(2)] show ?thesis
    by (auto split: result.splits)
qed

lemma length_own_pair: "length (own_pair mv level n) \<le> 1"
  by (simp add: own_pair_def)

lemma own_pair_root: "own_pair mv 0 n = []"
  by (simp add: own_pair_def)

lemma iterateRecursive_nil:
  assumes "wf_trie m d path n" "d \<le> fuel" "int (length acc) \<le> lim"
  shows "iterateRecursive fuel m n mv None lim level acc tr
           = Some (Ok (acc @ map tr (take (nat (lim - int (length acc)))
                                      (preorder_pairs m d mv level n))))"
  using assms
proof (induction d arbitrary: fuel path n level acc)
  case 0
  then show ?case by simp
next
  case (Suc d)
  from Suc.prems(2) obtain f where fuel: "fuel = Suc f" and df: "d \<le> f"
    by (cases fuel) simp_all
  show ?case
  proof (cases "0 < level \<and> lim = int (length acc)")
    case True
    then have "visitNode n mv None lim level acc tr = None"
      by (simp add: visitNode_def)
    then show ?thesis
      using True by (simp add: fuel iterateRecursive.simps)
  next
    case False
    define own where "own = own_pair mv level n"
    define acc0 where "acc0 = acc @ map tr own"
    define rest where "rest = concat (map (child_pairs m d mv level n) (children n))"
    have v: "visitNode n mv None lim level acc tr = Some (acc0, 0)"
    proof (cases "0 < level")
      case True
      with False show ?thesis
        unfolding acc0_def own_def by (simp add: visitNode_nil_pos)
    next
      case False
      then show ?thesis
        unfolding acc0_def own_def by (simp add: visitNode_nil_root)
    qed
    have ownlen: "length own \<le> nat (lim - int (length acc))"
    proof (cases "0 < level")
      case True
      with False Suc.prems(3) have "int (length acc) < lim" by simp
      then show ?thesis
        using length_own_pair [of mv level n] unfolding own_def by linarith
    next
      case False
      then show ?thesis unfolding own_def by (simp add: own_pair_root)
    qed
    then have tk: "take (nat (lim - int (length acc))) own = own"
      by simp
    have len0: "int (length acc0) \<le> lim"
      using ownlen Suc.prems(3) unfolding acc0_def by simp
    have loop: "iterateChildren f m n mv None lim level 0 0 acc0 tr
           = Some (Ok (acc0 @ map tr (take (nat (lim - int (length acc0))) rest)))"
    proof -
      have "iterateChildren f m n mv None lim level 0 0 acc0 tr
           = Some (Ok (acc0 @ map tr (take (nat (lim - int (length acc0)))
                 (concat (map (child_pairs m d mv level n) (drop 0 (children n)))))))"
      proof (rule iterateChildren_nil [OF _ _ len0])
        fix c path' and acc' :: "KeyValuePair list"
        assume "wf_trie m d path' c" "int (length acc') \<le> lim"
        then show "iterateRecursive f m c mv None lim (level + 1) acc' tr
           = Some (Ok (acc' @ map tr (take (nat (lim - int (length acc')))
                                       (preorder_pairs m d mv (level + 1) c))))"
          using Suc.IH [OF _ df] by blast
      next
        fix r
        assume "r < length (children n)"
        with wf_trie_children [OF Suc.prems(1)]
        show "\<exists>c path. getChildNode m (children n ! r) (INode.version n) = Ok c \<and> wf_trie m d path c"
          by blast
      qed
      then show ?thesis by (simp add: rest_def)
    qed
    have whole: "acc0 @ map tr (take (nat (lim - int (length acc0))) rest)
        = acc @ map tr (take (nat (lim - int (length acc))) (own @ rest))"
      using take_append_acc [OF Suc.prems(3), of tr own rest]
      unfolding acc0_def tk .
    have res: "iterateRecursive fuel m n mv None lim level acc tr
        = Some (Ok (acc0 @ map tr (take (nat (lim - int (length acc0))) rest)))"
    proof (cases "0 < length (children n)")
      case True
      then show ?thesis
        by (simp add: fuel iterateRecursive.simps v loop)
    next
      case False
      then have "rest = []" by (simp add: rest_def)
      with False show ?thesis
        by (simp add: fuel iterateRecursive.simps v)
    qed
    have "iterateRecursive fuel m n mv None lim level acc tr
        = Some (Ok (acc @ map tr (take (nat (lim - int (length acc))) (own @ rest))))"
      by (simp only: res whole)
    then show ?thesis
      by (simp only: preorder_pairs_Suc own_def rest_def)
  qed
qed

lemma bytes_Compare_append_same: "bytes_Compare (p @ x) (p @ y) = bytes_Compare x y"
  by (induction p) simp_all

lemma bytes_Compare_refl: "bytes_Compare x x = 0"
  by (induction x) simp_all

lemma byte_of_nat_less:
  assumes "i < j" "j < 256"
  shows "(word_of_nat i :: byte) < word_of_nat j"
proof -
  have "unat (word_of_nat i :: byte) = i mod 2 ^ LENGTH(8)" by (rule unat_of_nat)
  moreover have "unat (word_of_nat j :: byte) = j mod 2 ^ LENGTH(8)" by (rule unat_of_nat)
  ultimately show ?thesis
    using assms by (simp add: word_less_nat_alt)
qed

lemma set_bits_bytes_sorted:
  "sorted_wrt (<) (map (word_of_nat :: nat \<Rightarrow> byte) (set_bits bm))"
proof -
  have "sorted_wrt (<) (set_bits bm)"
    unfolding set_bits_def by (rule sorted_wrt_filter) simp
  moreover have "\<And>x. x \<in> set (set_bits bm) \<Longrightarrow> x < 256"
    by (simp add: set_bits_def)
  ultimately have "sorted_wrt (\<lambda>i j. (word_of_nat i :: byte) < word_of_nat j) (set_bits bm)"
    by (rule_tac sorted_wrt_mono_rel [where P = "(<)"]) (auto intro: byte_of_nat_less)
  then show ?thesis by (simp add: sorted_wrt_map)
qed

lemma sorted_concat_heads:
  assumes "list_all2 (\<lambda>ps b. sorted_wrt key_less ps
              \<and> (\<forall>p\<in>set ps. \<exists>rest. bytes_of (Key p) = path @ b # rest)) pss bs"
    and "sorted_wrt (<) bs"
  shows "sorted_wrt key_less (concat pss)
         \<and> (\<forall>p\<in>set (concat pss). \<exists>b\<in>set bs. \<exists>rest. bytes_of (Key p) = path @ b # rest)"
  using assms
proof (induction rule: list_all2_induct)
  case Nil
  then show ?case by simp
next
  case (Cons ps pss b bs)
  from Cons.prems have sb: "sorted_wrt (<) bs" and lt: "\<forall>b'\<in>set bs. b < b'"
    by simp_all
  from Cons.IH [OF sb] have s2: "sorted_wrt key_less (concat pss)"
    and h2: "\<forall>p\<in>set (concat pss). \<exists>b\<in>set bs. \<exists>rest. bytes_of (Key p) = path @ b # rest"
    by simp_all
  from Cons.hyps(1) have s1: "sorted_wrt key_less ps"
    and h1: "\<forall>p\<in>set ps. \<exists>rest. bytes_of (Key p) = path @ b # rest"
    by simp_all
  have cross: "key_less p q" if "p \<in> set ps" "q \<in> set (concat pss)" for p q
  proof -
    from h1 that(1) obtain r1 where k1: "bytes_of (Key p) = path @ b # r1" by blast
    from h2 that(2) obtain b' r2 where b': "b' \<in> set bs" and k2: "bytes_of (Key q) = path @ b' # r2"
      by blast
    from lt b' have "b < b'" by blast
    then show ?thesis
      by (simp add: key_less_def k1 k2 bytes_Compare_append_same)
  qed
  have "sorted_wrt key_less (concat (ps # pss))"
    using s1 s2 cross by (simp add: sorted_wrt_append)
  moreover have "\<forall>p\<in>set (concat (ps # pss)). \<exists>b'\<in>set (b # bs). \<exists>rest.
      bytes_of (Key p) = path @ b' # rest"
    using h1 h2 by auto
  ultimately show ?case by blast
qed

lemma own_pair_key:
  assumes "wf_trie m (Suc d) path n" "p \<in> set (own_pair mv level n)"
  shows "bytes_of (Key p) = path"
  using assms by (auto simp: own_pair_def genKeyValPair_def split: if_splits)

lemma preorder_sorted_prefix:
  assumes "wf_trie m d path n"
  shows "sorted_wrt key_less (preorder_pairs m d mv level n)
         \<and> (\<forall>p\<in>set (preorder_pairs m d mv level n). \<exists>rest. bytes_of (Key p) = path @ rest)"
  using assms
proof (induction d arbitrary: path n level)
  case 0
  then show ?case by simp
next
  case (Suc d)
  define own where "own = own_pair mv level n"
  define pss where "pss = map (child_pairs m d mv level n) (children n)"
  define bs where "bs = map (word_of_nat :: nat \<Rightarrow> byte) (set_bits (bitmap n))"
  from Suc.prems have la: "list_all2
          (\<lambda>childOffset b.
             case getChildNode m childOffset (INode.version n) of
               Ok childNode \<Rightarrow> wf_trie m d (path @ [word_of_nat b]) childNode
             | Err e \<Rightarrow> False
             | Panic \<Rightarrow> False)
          (children n) (set_bits (bitmap n))"
    by simp
  have "list_all2 (\<lambda>childOffset b. sorted_wrt key_less (child_pairs m d mv level n childOffset)
              \<and> (\<forall>p\<in>set (child_pairs m d mv level n childOffset).
                    \<exists>rest. bytes_of (Key p) = path @ word_of_nat b # rest))
          (children n) (set_bits (bitmap n))"
  proof (rule list_all2_mono [OF la])
    fix childOffset b
    assume "case getChildNode m childOffset (INode.version n) of
               Ok childNode \<Rightarrow> wf_trie m d (path @ [word_of_nat b]) childNode
             | Err e \<Rightarrow> False
             | Panic \<Rightarrow> False"
    then obtain c where c: "getChildNode m childOffset (INode.version n) = Ok c"
      and wf: "wf_trie m d (path @ [word_of_nat b]) c"
      by (auto split: result.splits)
    from Suc.IH [OF wf, of "level + 1"] c
    show "sorted_wrt key_less (child_pairs m d mv level n childOffset)
              \<and> (\<forall>p\<in>set (child_pairs m d mv level n childOffset).
                    \<exists>rest. bytes_of (Key p) = path @ word_of_nat b # rest)"
      by (simp add: child_pairs_def)
  qed
  then have "list_all2 (\<lambda>ps b. sorted_wrt key_less ps
              \<and> (\<forall>p\<in>set ps. \<exists>rest. bytes_of (Key p) = path @ b # rest)) pss bs"
    unfolding pss_def bs_def by (simp add: list_all2_map1 list_all2_map2)
  from sorted_concat_heads [OF this] set_bits_bytes_sorted [of "bitmap n"]
  have sc: "sorted_wrt key_less (concat pss)"
    and hc: "\<forall>p\<in>set (concat pss). \<exists>b\<in>set bs. \<exists>rest. bytes_of (Key p) = path @ b # rest"
    unfolding bs_def by simp_all
  have ok: "\<forall>p\<in>set own. bytes_of (Key p) = path"
    unfolding own_def using own_pair_key [OF Suc.prems] by blast
  have so: "sorted_wrt key_less own"
    unfolding own_def by (simp add: own_pair_def)
  have cross: "key_less p q" if "p \<in> set own" "q \<in> set (concat pss)" for p q
  proof -
    from ok that(1) have k1: "bytes_of (Key p) = path" by blast
    from hc that(2) obtain b rest where k2: "bytes_of (Key q) = path @ b # rest" by blast
    have "bytes_Compare (path @ []) (path @ b # rest) = - 1"
      by (simp only: bytes_Compare_append_same bytes_Compare.simps)
    then show ?thesis by (simp add: key_less_def k1 k2)
  qed
  have eq: "preorder_pairs m (Suc d) mv level n = own @ concat pss"
    unfolding own_def pss_def by (rule preorder_pairs_Suc)
  have "sorted_wrt key_less (own @ concat pss)"
    using so sc cross by (simp add: sorted_wrt_append)
  moreover have "\<forall>p\<in>set (own @ concat pss). \<exists>rest. bytes_of (Key p) = path @ rest"
  proof
    fix p
    assume "p \<in> set (own @ concat pss)"
    then consider "p \<in> set own" | "p \<in> set (concat pss)" by auto
    then show "\<exists>rest. bytes_of (Key p) = path @ rest"
    proof cases
      case 1
      with ok have "bytes_of (Key p) = path @ []" by simp
      then show ?thesis by (rule exI)
    next
      case 2
      with hc show ?thesis by blast
    qed
  qed
  ultimately show ?case unfolding eq by blast
qed

lemma nodes_of_trans:
  assumes "x \<in> nodes_of m c" "c \<in> nodes_of m n"
  shows "x \<in> nodes_of m n"
  using assms by (induction rule: nodes_of.induct) (auto intro: nodes_of.child)

lemma stored_pairs_child:
  assumes "childOffset \<in> set (children n)" "getChildNode m childOffset (INode.version n) = Ok c"
    and "p \<in> stored_pairs m mv c"
  shows "p \<in> stored_pairs m mv n"
proof -
  have "c \<in> nodes_of m n"
    using nodes_of.child [OF nodes_of.root assms(1,2)] .
  with assms(3) show ?thesis
    unfolding stored_pairs_def using nodes_of_trans by blast
qed

lemma preorder_subset_stored:
  "p \<in> set (preorder_pairs m d mv level n) \<Longrightarrow> p \<in> stored_pairs m mv n"
proof (induction d arbitrary: level n)
  case 0
  then show ?case by simp
next
  case (Suc d)
  from Suc.prems consider (own) "p \<in> set (own_pair mv level n)"
    | (child) childOffset where "childOffset \<in> set (children n)"
        "p \<in> set (child_pairs m d mv level n childOffset)"
    unfolding preorder_pairs_Suc by auto
  then show ?case
  proof cases
    case own
    then show ?thesis
      by (auto simp: own_pair_def stored_pairs_def nodes_of.root split: if_splits)
  next
    case child
    from child(2) obtain c where c: "getChildNode m childOffset (INode.version n) = Ok c"
      and p: "p \<in> set (preorder_pairs m d mv (level + 1) c)"
      by (cases "getChildNode m childOffset (INode.version n)") (auto simp: child_pairs_def)
    from stored_pairs_child [OF child(1) c Suc.IH [OF p]] show ?thesis .
  qed
qed

lemma nodes_of_wf:
  assumes "x \<in> nodes_of m n" "wf_trie m d path n"
  shows "\<exists>d' path'. wf_trie m (Suc d') path' x
           \<and> set (preorder_pairs m (Suc d') mv (length path') x)
               \<subseteq> set (preorder_pairs m d mv (length path) n)"
  using assms
proof (induction rule: nodes_of.induct)
  case root
  then obtain d0 where "d = Suc d0" by (cases d) simp_all
  with root show ?case by blast
next
  case (child node childOffset childNode)
  from child.IH [OF child.prems] obtain d1 path1 where
    wf1: "wf_trie m (Suc d1) path1 node"
    and sub1: "set (preorder_pairs m (Suc d1) mv (length path1) node)
               \<subseteq> set (preorder_pairs m d mv (length path) n)"
    by blast
  from child.hyps(2) obtain r where r: "r < length (children node)"
    and cr: "children node ! r = childOffset"
    by (auto simp: in_set_conv_nth)
  from wf_trie_children [OF wf1 r] child.hyps(3) cr
  have wf2: "wf_trie m d1 (path1 @ [word_of_nat (set_bits (bitmap node) ! r)]) childNode"
    by simp
  then obtain d2 where d2: "d1 = Suc d2" by (cases d1) simp_all
  have cp: "child_pairs m d1 mv (length path1) node childOffset
      = preorder_pairs m d1 mv (length path1 + 1) childNode"
    by (simp add: child_pairs_def child.hyps(3))
  have "set (child_pairs m d1 mv (length path1) node childOffset)
          \<subseteq> set (own_pair mv (length path1) node
                 @ concat (map (child_pairs m d1 mv (length path1) node) (children node)))"
    using child.hyps(2) by auto
  then have "set (preorder_pairs m d1 mv (length path1 + 1) childNode)
          \<subseteq> set (preorder_pairs m (Suc d1) mv (length path1) node)"
    by (simp only: cp preorder_pairs_Suc)
  with sub1 have "set (preorder_pairs m d1 mv (length path1 + 1) childNode)
          \<subseteq> set (preorder_pairs m d mv (length path) n)"
    by blast
  moreover have "length (path1 @ [word_of_nat (set_bits (bitmap node) ! r) :: byte]) = length path1 + 1"
    by simp
  ultimately have "set (preorder_pairs m (Suc d2) mv
                        (length (path1 @ [word_of_nat (set_bits (bitmap node) ! r) :: byte])) childNode)
          \<subseteq> set (preorder_pairs m d mv (length path) n)"
    by (simp only: d2)
  with wf2 d2 show ?case by blast
qed

lemma stored_subset_preorder:
  assumes "wf_trie m d [] root" "p \<in> stored_pairs m mv root"
  shows "p \<in> set (preorder_pairs m d mv 0 root)"
proof -
  from assms(2) obtain x where x: "x \<in> nodes_of m root" and p: "p = genKeyValPair x"
    and real: "0 < length (bytes_of (LNode.key (leaf x)))"
    and ver: "mv \<le> LNode.version (leaf x)"
    unfolding stored_pairs_def by blast
  from nodes_of_wf [OF x assms(1), of mv] obtain d' path' where
    wf: "wf_trie m (Suc d') path' x"
    and sub: "set (preorder_pairs m (Suc d') mv (length path') x)
               \<subseteq> set (preorder_pairs m d mv 0 root)"
    by auto
  from wf real have "path' \<noteq> []" by auto
  then have "own_pair mv (length path') x = [genKeyValPair x]"
    using real ver by (simp add: own_pair_def)
  then have "p \<in> set (preorder_pairs m (Suc d') mv (length path') x)"
    unfolding preorder_pairs_Suc p by simp
  with sub show ?thesis by blast
qed

lemma sorted_wrt_irrefl_imp_distinct:
  assumes "sorted_wrt P xs" "\<And>x. \<not> P x x"
  shows "distinct xs"
  using assms by (induction xs) auto

lemma key_less_irrefl: "\<not> key_less p p"
  by (simp add: key_less_def bytes_Compare_refl)


lemma set_bits_root_ab: "set_bits [0, 0, 0, 2, 0, 0, 0, 0] = [97]"
  by code_simp

lemma set_bits_node_a: "set_bits [0, 0, 0, 4, 0, 0, 0, 0] = [98]"
  by code_simp

lemma set_bits_zero: "set_bits [0, 0, 0, 0, 0, 0, 0, 0] = []"
  by code_simp

lemma wf_trie_root_ab: "wf_trie (spec_mari []) (Suc (Suc (Suc 0))) [] root_ab"
  by (simp add: root_ab_def node_a_def node_ab_def sentinel_def getChildNode_def bytes_of_def
      set_bits_root_ab set_bits_node_a set_bits_zero)



subsection \<open>Writing a node into the memory map\<close>

lemma length_go_copy: "length (go_copy dst src) = length dst"
  by (simp add: go_copy_def)

lemma take_go_copy: "k \<le> length src \<Longrightarrow> k \<le> length dst \<Longrightarrow> take k (go_copy dst src) = take k src"
  by (simp add: go_copy_def)

lemma copy_to_slice_Ok:
  assumes "copy_to_slice d lo hi src = Ok d'"
  shows "unat lo \<le> unat hi" "unat hi \<le> length d"
    "d' = take (unat lo) d @ go_copy (take (unat hi - unat lo) (drop (unat lo) d)) src
            @ drop (unat hi) d"
  using assms by (simp_all add: copy_to_slice_def split: if_splits)

lemma copy_to_slice_length:
  assumes "copy_to_slice d lo hi src = Ok d'"
  shows "length d' = length d"
  using copy_to_slice_Ok [OF assms] by (simp add: length_go_copy)

lemma copy_to_slice_written:
  assumes "copy_to_slice d lo hi src = Ok d'" "k \<le> length src" "k \<le> unat hi - unat lo"
  shows "take k (drop (unat lo) d') = take k src"
proof -
  note ok = copy_to_slice_Ok [OF assms(1)]
  have l: "length (take (unat lo) d) = unat lo"
    using ok(1,2) by simp
  have "drop (unat lo) d' = go_copy (take (unat hi - unat lo) (drop (unat lo) d)) src
            @ drop (unat hi) d"
    unfolding ok(3) using l by simp
  moreover have "k \<le> length (take (unat hi - unat lo) (drop (unat lo) d))"
    using assms(3) ok(1,2) by simp
  ultimately show ?thesis
    using assms(2) by (simp add: take_go_copy length_go_copy)
qed

lemma copy_to_slice_before:
  assumes "copy_to_slice d lo hi src = Ok d'" "a + k \<le> unat lo"
  shows "take k (drop a d') = take k (drop a d)"
proof -
  note ok = copy_to_slice_Ok [OF assms(1)]
  have "take (a + k) d' = take (a + k) d"
    unfolding ok(3) using assms(2) ok(1,2) by (simp add: min_def)
  then have "drop a (take (a + k) d') = drop a (take (a + k) d)" by simp
  then show ?thesis by (simp add: drop_take)
qed


lemma writeLNode_Ok:
  assumes "writeLNodeToMemMap m l = (Ok off, m')"
  shows "\<exists>sLeaf d'. serializeLNode m l = Ok sLeaf
           \<and> copy_to_slice (data m) (LNode.startOffset l) (getEndOffsetLNode l + 1) sLeaf = Ok d'
           \<and> m' = m\<lparr>data := d', flushed := flushed m @ [(LNode.startOffset l, getEndOffsetLNode l)]\<rparr>
           \<and> off = getEndOffsetLNode l + 1"
  using assms
  by (auto simp: writeLNodeToMemMap_def flushRegionToDisk_def Let_def
      split: result.splits prod.splits)

lemma writeINode_Ok:
  assumes "writeINodeToMemMap m n = (Ok off, m')"
  shows "\<exists>sNode d1. serializeINode m n False = Ok sNode
           \<and> copy_to_slice (data m) (INode.startOffset n) (LNode.startOffset (leaf n) + 1) sNode = Ok d1
           \<and> writeLNodeToMemMap
                (m\<lparr>data := d1, flushed := flushed m @ [(INode.startOffset n, getEndOffsetINode n)]\<rparr>)
                (leaf n) = (Ok off, m')"
  using assms
  by (auto simp: writeINodeToMemMap_def flushRegionToDisk_def Let_def
      split: result.splits prod.splits)

lemma unat_succ_small:
  fixes x :: u64
  assumes "unat x < 2 ^ 63"
  shows "unat (x + 1) = unat x + 1"
proof -
  have "unat x + 1 < 2 ^ 64" using assms by simp
  from unat_plus_nat [OF this] show ?thesis by simp
qed

lemma unat_end_small:
  fixes x :: u64 and e :: u16
  assumes "unat x < 2 ^ 63"
  shows "unat (x + ucast e + 1) = unat x + unat e + 1"
proof -
  have "unat e < 2 ^ 16" using unsigned_less [of e, where ?'a = nat] by simp
  then have "unat x + (unat e + 1) < 2 ^ 64" using assms by simp
  from unat_plus_nat [OF this] have "unat (x + word_of_nat (unat e + 1)) = unat x + (unat e + 1)" .
  moreover have "x + ucast e + 1 = x + word_of_nat (unat e + 1)" by simp
  ultimately show ?thesis by (simp only: add.assoc)
qed


lemma serializeINode_ex_written:
  "serializeINode (spec_mari (replicate 200 0)) ex_written False
     = Ok [1, 0, 0, 0, 0, 0, 0, 0, 64, 0, 0, 0, 0, 0, 0, 0, 57, 0,
        0, 0, 0, 0, 0, 0, 0, 0, 0, 0, 0, 0, 0, 0, 0, 0, 0, 0, 0, 0, 0, 0, 0, 0, 0, 0, 0, 0, 0, 0, 0, 0,
        122, 0, 0, 0, 0, 0, 0, 0]"
  by (simp add: spec_mari_def spec_serializeINode_def ex_written_def le_bytes_def upt_rec)

lemma serializeLNode_ex_written:
  "serializeLNode (spec_mari d) (leaf ex_written)
     = Ok [1, 0, 0, 0, 0, 0, 0, 0, 122, 0, 0, 0, 0, 0, 0, 0, 20, 0, 1, 97, 49]"
  by (simp add: spec_mari_def spec_serializeLNode_def ex_written_def le_bytes_def upt_rec)

lemma writeINode_succeeds:
  assumes "serializeINode m n False = Ok sNode" "serializeLNode m (leaf n) = Ok sLeaf"
    and "\<And>a b. flushOutcome m a b = Ok ()"
    and "unat (INode.startOffset n) \<le> unat (LNode.startOffset (leaf n) + 1)"
    and "unat (LNode.startOffset (leaf n) + 1) \<le> length (data m)"
    and "unat (LNode.startOffset (leaf n)) \<le> unat (getEndOffsetLNode (leaf n) + 1)"
    and "unat (getEndOffsetLNode (leaf n) + 1) \<le> length (data m)"
  shows "fst (writeINodeToMemMap m n) = Ok (getEndOffsetLNode (leaf n) + 1)"
  using assms
  by (simp add: writeINodeToMemMap_def writeLNodeToMemMap_def flushRegionToDisk_def
      copy_to_slice_def length_go_copy Let_def)

lemma write_ex_written:
  "fst (writeINodeToMemMap (spec_mari (replicate 200 0)) ex_written) = Ok 143"
proof -
  have "fst (writeINodeToMemMap (spec_mari (replicate 200 0)) ex_written)
          = Ok (getEndOffsetLNode (leaf ex_written) + 1)"
    by (rule writeINode_succeeds [OF serializeINode_ex_written serializeLNode_ex_written])
      (simp_all add: spec_mari_def ex_written_def getEndOffsetLNode_def)
  then show ?thesis
    by (simp add: ex_written_def getEndOffsetLNode_def)
qed


lemma stored_root_ab:
  "KeyValuePair (Some [97, 98]) [49] \<in> stored_pairs (spec_mari []) 0 root_ab"
proof -
  have a: "node_a \<in> nodes_of (spec_mari []) root_ab"
    by (rule nodes_of.child [OF nodes_of.root, of "Some node_a"])
      (simp_all add: root_ab_def node_a_def getChildNode_def)
  have "node_ab \<in> nodes_of (spec_mari []) root_ab"
    by (rule nodes_of.child [OF a, of "Some node_ab"])
      (simp_all add: node_a_def node_ab_def getChildNode_def)
  moreover have "genKeyValPair node_ab = KeyValuePair (Some [97, 98]) [49]"
    by (simp add: genKeyValPair_def node_ab_def)
  moreover have "0 < length (bytes_of (LNode.key (leaf node_ab)))"
    by (simp add: node_ab_def bytes_of_def)
  ultimately show ?thesis
    unfolding stored_pairs_def by force
qed


section \<open>Claims\<close>



text \<open>
  C8. For an internal node (its bitmap is the eight 32-bit words of the Go array),
  \<open>determineEndOffsetINode\<close> returns \<open>NodeChildrenIdx + popcount * 8 - 1\<close> when at least
  one bit of the bitmap is set and \<open>NodeChildrenIdx - 1\<close> when none is, where the
  popcount is the number of set bits summed over the words of the bitmap.
\<close>

theorem determineEndOffsetINode_popcount:
  assumes "length (bitmap node) = 8"
  shows "(0 < sum_list (map (\<lambda>w. card {j. bit w j}) (bitmap node)) \<longrightarrow>
            unat (determineEndOffsetINode node)
              = NodeChildrenIdx + sum_list (map (\<lambda>w. card {j. bit w j}) (bitmap node)) * 8 - 1)
         \<and> (sum_list (map (\<lambda>w. card {j. bit w j}) (bitmap node)) = 0 \<longrightarrow>
            unat (determineEndOffsetINode node) = NodeChildrenIdx - 1)"
proof -
  define pc where "pc = sum_list (map (\<lambda>w. card {j. bit w j}) (bitmap node))"
  have le: "pc \<le> 256"
    using sum_bits_le [of "bitmap node"] assms by (simp add: pc_def)
  have enc: "foldl (\<lambda>t w. t + calculateHammingWeight w) 0 (bitmap node) * int NodeChildPtrSize
               = int (pc * 8)"
    by (simp add: foldl_hamming pc_def NodeChildPtrSize_def)
  have conv: "word_of_int (int NodeChildrenIdx + int (pc * 8)) = (word_of_nat (58 + pc * 8) :: u16)"
    by (simp add: NodeChildrenIdx_def)
  have pos: "unat (word_of_nat (58 + pc * 8) - 1 :: u16) = 58 + pc * 8 - 1"
  proof -
    have "(word_of_nat (58 + pc * 8) - 1 :: u16) = word_of_nat (57 + pc * 8)"
      by simp
    moreover have "unat (word_of_nat (57 + pc * 8) :: u16) = (57 + pc * 8) mod 2 ^ LENGTH(16)"
      by (rule unat_of_nat)
    moreover have "(57 + pc * 8) mod 2 ^ LENGTH(16) = 57 + pc * 8"
      using le by simp
    ultimately show ?thesis by (simp only:)
  qed
  have "0 < pc \<longrightarrow> unat (determineEndOffsetINode node) = NodeChildrenIdx + pc * 8 - 1"
    using pos by (simp add: determineEndOffsetINode_def enc conv Let_def NodeChildrenIdx_def)
  moreover have "pc = 0 \<longrightarrow> unat (determineEndOffsetINode node) = NodeChildrenIdx - 1"
    by (simp add: determineEndOffsetINode_def enc Let_def NodeChildrenIdx_def)
  ultimately show ?thesis
    unfolding pc_def by blast
qed

theorem determineEndOffsetINode_popcount_witness:
  "length (bitmap (INode 1 0 0 [0, 0, 0, 2, 0, 0, 0, 5] (LNode 0 0 0 0 None []) [])) = 8
   \<and> unat (determineEndOffsetINode
              (INode 1 0 0 [0, 0, 0, 2, 0, 0, 0, 5] (LNode 0 0 0 0 None []) [])) = 81
   \<and> length (bitmap (INode 1 0 0 [0, 0, 0, 0, 0, 0, 0, 0] (LNode 0 0 0 0 None []) [])) = 8
   \<and> unat (determineEndOffsetINode
              (INode 1 0 0 [0, 0, 0, 0, 0, 0, 0, 0] (LNode 0 0 0 0 None []) [])) = 57"
proof -
  have a: "popcount [0, 0, 0, 2, 0, 0, 0, 5] = 3"
    by code_simp
  have b: "popcount [0, 0, 0, 0, 0, 0, 0, 0] = 0"
    by code_simp
  show ?thesis
    using determineEndOffsetINode_popcount
        [of "INode 1 0 0 [0, 0, 0, 2, 0, 0, 0, 5] (LNode 0 0 0 0 None []) []",
          unfolded sum_bits_popcount]
      determineEndOffsetINode_popcount
        [of "INode 1 0 0 [0, 0, 0, 0, 0, 0, 0, 0] (LNode 0 0 0 0 None []) []",
          unfolded sum_bits_popcount]
    by (simp add: a b NodeChildrenIdx_def)
qed

text \<open>
  C10. \<open>copyINode\<close> returns a node with the version, the bitmap and the leaf of the
  source and with the same children in the same order; so a source whose number of
  children is the popcount of its bitmap gives a copy with the same property.
\<close>

theorem copyINode_fields:
  "INode.version (copyINode nodeCopy node) = INode.version node
   \<and> bitmap (copyINode nodeCopy node) = bitmap node
   \<and> leaf (copyINode nodeCopy node) = leaf node
   \<and> children (copyINode nodeCopy node) = children node
   \<and> (length (children node) = popcount (bitmap node) \<longrightarrow>
        length (children (copyINode nodeCopy node)) = popcount (bitmap (copyINode nodeCopy node)))"
proof -
  have "bitmap (copyINode nodeCopy node) = bitmap node"
    by (simp add: copyINode_def)
  moreover have "INode.version (copyINode nodeCopy node) = INode.version node"
    by (simp add: copyINode_def)
  moreover have "leaf (copyINode nodeCopy node) = leaf node"
    by (simp add: copyINode_def)
  ultimately show ?thesis
    by (simp add: children_copyINode)
qed


theorem copyINode_fields_witness:
  "length (children (INode 3 64 57 [0, 0, 0, 2, 0, 0, 0, 0] (LNode 0 0 0 0 None [])
                       [Some (INode 3 0 0 [0, 0, 0, 0, 0, 0, 0, 0]
                               (LNode 3 0 0 1 (Some [97]) [49]) [])]))
     = popcount (bitmap (INode 3 64 57 [0, 0, 0, 2, 0, 0, 0, 0] (LNode 0 0 0 0 None [])
                       [Some (INode 3 0 0 [0, 0, 0, 0, 0, 0, 0, 0]
                               (LNode 3 0 0 1 (Some [97]) [49]) [])]))
   \<and> length (children (copyINode (INode 0 0 0 [] (LNode 0 0 0 0 None []) [])
         (INode 3 64 57 [0, 0, 0, 2, 0, 0, 0, 0] (LNode 0 0 0 0 None [])
                       [Some (INode 3 0 0 [0, 0, 0, 0, 0, 0, 0, 0]
                               (LNode 3 0 0 1 (Some [97]) [49]) [])]))) = 1"
proof -
  have a: "popcount [0, 0, 0, 2, 0, 0, 0, 0] = 1"
    by code_simp
  show ?thesis
    using copyINode_fields [of "INode 0 0 0 [] (LNode 0 0 0 0 None []) []"
        "INode 3 64 57 [0, 0, 0, 2, 0, 0, 0, 0] (LNode 0 0 0 0 None [])
           [Some (INode 3 0 0 [0, 0, 0, 0, 0, 0, 0, 0] (LNode 3 0 0 1 (Some [97]) [49]) [])]"]
    by (simp add: a)
qed


text \<open>
  C5. For a child reference \<open>ref\<close> and a version, \<open>getChildNode\<close> returns \<open>ref\<close> itself
  when \<open>ref.version\<close> is the version and \<open>ref.startOffset\<close> is 0, and otherwise what
  \<open>readINodeFromMemMap\<close> returns at \<open>ref.startOffset\<close>. That read succeeds exactly when
  the two-byte end offset at \<open>off + 16\<close> decodes to some \<open>e\<close>, the bytes
  \<open>[off, off + e]\<close> of the map decode to an internal node, and the read of the leaf at
  that node's \<open>leaf.startOffset\<close> succeeds (which is the same for the leaf's bytes); the
  result is the decoded node with the decoded leaf. In every other case it returns an
  error. The map is a Go slice, so its length is below \<open>2^63\<close>.
\<close>

theorem getChildNode_cases:
  assumes "length (data mariInst) < 2 ^ 63"
  shows "(INode.version ref = version' \<and> INode.startOffset ref = 0 \<longrightarrow>
            getChildNode mariInst (Some ref) version' = Ok ref)
         \<and> (\<not> (INode.version ref = version' \<and> INode.startOffset ref = 0) \<longrightarrow>
            getChildNode mariInst (Some ref) version'
              = readINodeFromMemMap mariInst (INode.startOffset ref))
         \<and> (readINodeFromMemMap mariInst off = Ok n \<longleftrightarrow>
            (\<exists>e n0 l. unat off + 18 \<le> length (data mariInst)
               \<and> deserializeUint16 mariInst (take 2 (drop (unat off + 16) (data mariInst))) = Ok e
               \<and> unat off + unat e + 1 \<le> length (data mariInst)
               \<and> deserializeINode mariInst (take (unat e + 1) (drop (unat off) (data mariInst)))
                    = Ok n0
               \<and> readLNodeFromMemMap mariInst (LNode.startOffset (leaf n0)) = Ok l
               \<and> n = INode (INode.version n0) (INode.startOffset n0) (INode.endOffset n0)
                       (bitmap n0) l (children n0)))
         \<and> (readLNodeFromMemMap mariInst loff = Ok l' \<longleftrightarrow>
            (\<exists>e. unat loff + 18 \<le> length (data mariInst)
               \<and> deserializeUint16 mariInst (take 2 (drop (unat loff + 16) (data mariInst))) = Ok e
               \<and> unat loff + unat e + 1 \<le> length (data mariInst)
               \<and> deserializeLNode mariInst (take (unat e + 1) (drop (unat loff) (data mariInst)))
                    = Ok l'))
         \<and> ((\<forall>v. readINodeFromMemMap mariInst off \<noteq> Ok v) \<longrightarrow>
              (\<exists>msg. readINodeFromMemMap mariInst off = Err msg))"
proof -
  have a: "INode.version ref = version' \<and> INode.startOffset ref = 0 \<longrightarrow>
            getChildNode mariInst (Some ref) version' = Ok ref"
    by (simp add: getChildNode_def)
  have b: "\<not> (INode.version ref = version' \<and> INode.startOffset ref = 0) \<longrightarrow>
            getChildNode mariInst (Some ref) version'
              = readINodeFromMemMap mariInst (INode.startOffset ref)"
    by (auto simp add: getChildNode_def then_result_id)
  have e: "(\<forall>v. readINodeFromMemMap mariInst off \<noteq> Ok v) \<longrightarrow>
              (\<exists>msg. readINodeFromMemMap mariInst off = Err msg)"
    using not_Ok_Err [OF readINode_no_panic] by blast
  show ?thesis
    using a b e readINode_Ok_iff [OF assms, of off n] readLNode_Ok_iff [OF assms, of loff l']
    by blast
qed


theorem getChildNode_cases_witness:
  "length (data (spec_mari ex_mMap)) < 2 ^ 63
   \<and> getChildNode (spec_mari ex_mMap) (Some node_a) 1 = Ok node_a
   \<and> getChildNode (spec_mari ex_mMap)
         (Some (INode 0 64 0 [0, 0, 0, 0, 0, 0, 0, 0] sentinel [])) 1
       = Ok (INode 1 64 57 [0, 0, 0, 0, 0, 0, 0, 0] (LNode 1 122 20 1 (Some [97]) [49]) [])"
proof -
  have len: "length (data (spec_mari ex_mMap)) < 2 ^ 63"
    by (simp add: spec_mari_def length_ex_mMap)
  have "getChildNode (spec_mari ex_mMap) (Some node_a) 1 = Ok node_a"
    using getChildNode_cases [OF len, of node_a 1] by (simp add: node_a_def)
  moreover have "getChildNode (spec_mari ex_mMap)
         (Some (INode 0 64 0 [0, 0, 0, 0, 0, 0, 0, 0] sentinel [])) 1
       = readINodeFromMemMap (spec_mari ex_mMap) 64"
    using getChildNode_cases [OF len, of "INode 0 64 0 [0, 0, 0, 0, 0, 0, 0, 0] sentinel []" 1]
    by simp
  ultimately show ?thesis
    using len by (simp only: readINode_ex_mMap simp_thms)
qed


text \<open>
  C9. Reading or writing a node through the memory map never lets a panic through:
  \<open>readINodeFromMemMap\<close>, \<open>readLNodeFromMemMap\<close>, \<open>writeINodeToMemMap\<close>,
  \<open>writeLNodeToMemMap\<close> and \<open>writeNodesToMemMap\<close> return a value or an error for
  every instance, offset and node, whatever the codec does. At an offset out of the
  bounds of the map the slice expression panics and the result is the error with the
  generic message of the function (and the instance is unchanged).
\<close>

theorem memMap_access_recovers:
  "((\<exists>v. readINodeFromMemMap m off = Ok v) \<or> (\<exists>msg. readINodeFromMemMap m off = Err msg))
   \<and> ((\<exists>v. readLNodeFromMemMap m off = Ok v) \<or> (\<exists>msg. readLNodeFromMemMap m off = Err msg))
   \<and> ((\<exists>v. fst (writeINodeToMemMap m n) = Ok v) \<or> (\<exists>msg. fst (writeINodeToMemMap m n) = Err msg))
   \<and> ((\<exists>v. fst (writeLNodeToMemMap m l) = Ok v) \<or> (\<exists>msg. fst (writeLNodeToMemMap m l) = Err msg))
   \<and> ((\<exists>v. fst (writeNodesToMemMap m snodes off) = Ok v)
        \<or> (\<exists>msg. fst (writeNodesToMemMap m snodes off) = Err msg))
   \<and> (length (data m) < unat off + 18 \<and> unat off + 18 < 2 ^ 64 \<longrightarrow>
        readINodeFromMemMap m off = Err ''error reading node from mem map''
        \<and> readLNodeFromMemMap m off = Err ''error reading node from mem map'')
   \<and> (length (data m) < unat off + length snodes \<and> unat off + length snodes < 2 ^ 64 \<longrightarrow>
        writeNodesToMemMap m snodes off = (Err ''error writing new path to mmap'', m))
   \<and> ((\<exists>s. serializeLNode m l = Ok s)
        \<and> length (data m) < unat (LNode.startOffset l) + unat (LNode.endOffset l) + 1
        \<and> unat (LNode.startOffset l) + unat (LNode.endOffset l) + 1 < 2 ^ 64 \<longrightarrow>
        writeLNodeToMemMap m l = (Err ''error writing new path to mmap'', m))
   \<and> ((\<exists>s. serializeINode m n False = Ok s)
        \<and> length (data m) < unat (LNode.startOffset (leaf n)) + 1
        \<and> unat (LNode.startOffset (leaf n)) + 1 < 2 ^ 64 \<longrightarrow>
        writeINodeToMemMap m n = (Err ''error writing new path to mmap'', m))"
proof -
  note r1 = result_cases [OF readINode_no_panic [of m off]]
  note r2 = result_cases [OF readLNode_no_panic [of m off]]
  note r3 = result_cases [OF writeINode_no_panic [of m n]]
  note r4 = result_cases [OF writeLNode_no_panic [of m l]]
  note r5 = result_cases [OF writeNodes_no_panic [of m snodes off]]
  show ?thesis
    using r1 r2 r3 r4 r5 readINode_out_of_range [of m off] readLNode_out_of_range [of m off]
      writeNodes_out_of_range [of m off snodes] writeLNode_out_of_range [of m l]
      writeINode_out_of_range [of m n]
    by blast
qed

theorem memMap_access_recovers_witness:
  "readINodeFromMemMap (spec_mari ex_mMap) 200 = Err ''error reading node from mem map''
   \<and> readLNodeFromMemMap (spec_mari ex_mMap) 200 = Err ''error reading node from mem map''
   \<and> writeNodesToMemMap (spec_mari ex_mMap) [1, 2, 3] 141
       = (Err ''error writing new path to mmap'', spec_mari ex_mMap)
   \<and> writeLNodeToMemMap (spec_mari ex_mMap) (LNode 1 140 20 1 (Some [97]) [49])
       = (Err ''error writing new path to mmap'', spec_mari ex_mMap)
   \<and> writeINodeToMemMap (spec_mari ex_mMap)
         (INode 1 100 57 [0, 0, 0, 0, 0, 0, 0, 0] (LNode 1 158 20 1 (Some [97]) [49]) [])
       = (Err ''error writing new path to mmap'', spec_mari ex_mMap)"
proof -
  have d: "length (data (spec_mari ex_mMap)) = 143"
    by (simp add: spec_mari_def length_ex_mMap)
  have sl: "\<exists>s. serializeLNode (spec_mari ex_mMap) (LNode 1 140 20 1 (Some [97]) [49]) = Ok s"
    by (simp add: spec_mari_def spec_serializeLNode_def)
  have si: "\<exists>s. serializeINode (spec_mari ex_mMap)
         (INode 1 100 57 [0, 0, 0, 0, 0, 0, 0, 0] (LNode 1 158 20 1 (Some [97]) [49]) []) False
       = Ok s"
    by (simp add: spec_mari_def spec_serializeINode_def)
  show ?thesis
    using memMap_access_recovers [of "spec_mari ex_mMap" 200]
      memMap_access_recovers [of "spec_mari ex_mMap" 141 _ _ "[1, 2, 3]"]
      memMap_access_recovers [of "spec_mari ex_mMap" _ _ "LNode 1 140 20 1 (Some [97]) [49]"]
      memMap_access_recovers [of "spec_mari ex_mMap" _
        "INode 1 100 57 [0, 0, 0, 0, 0, 0, 0, 0] (LNode 1 158 20 1 (Some [97]) [49]) []"]
      sl si
    by (simp add: d)
qed


text \<open>
  C4. Whatever the start key and the trie, a run of \<open>iterateRecursive\<close> that starts with
  an accumulator no longer than \<open>totalResults\<close> (\<open>Iterate\<close> starts it at the root with an
  empty one and a non-negative limit) returns at most \<open>totalResults\<close> pairs; and as soon
  as the accumulator has \<open>totalResults\<close> pairs, \<open>iterateRecursive\<close> at any level and the
  loop over the children at any position return it as it is, without a further child.
\<close>

theorem iterate_respects_limit:
  "(int (length acc) \<le> totalResults
      \<and> iterateRecursive fuel mariInst currNode minVersion startKey totalResults level acc transform
          = Some (Ok r) \<longrightarrow> int (length r) \<le> totalResults)
   \<and> (int (length acc) = totalResults \<longrightarrow>
        iterateRecursive (Suc fuel) mariInst currNode minVersion startKey totalResults level acc
          transform = Some (Ok acc)
        \<and> iterateChildren fuel mariInst currNode minVersion startKey totalResults level
            startKeyPos currPos acc transform = Some (Ok acc))"
proof -
  have "int (length acc) \<le> totalResults
      \<and> iterateRecursive fuel mariInst currNode minVersion startKey totalResults level acc transform
          = Some (Ok r) \<longrightarrow> int (length r) \<le> totalResults"
    using iterate_limit(1) by blast
  moreover have "int (length acc) = totalResults \<longrightarrow>
        iterateRecursive (Suc fuel) mariInst currNode minVersion startKey totalResults level acc
          transform = Some (Ok acc)"
    using iterateRecursive_at_limit by blast
  moreover have "int (length acc) = totalResults \<longrightarrow>
        iterateChildren fuel mariInst currNode minVersion startKey totalResults level
            startKeyPos currPos acc transform = Some (Ok acc)"
    using iterateChildren_at_limit by blast
  ultimately show ?thesis by blast
qed

theorem iterate_respects_limit_witness:
  "int (length ([] :: KeyValuePair list)) \<le> 1
   \<and> iterateRecursive (Suc (Suc (Suc 0))) (spec_mari []) root_ab 0 None 1 0 [] (\<lambda>kv. kv)
       = Some (Ok [KeyValuePair (Some [97, 98]) [49]])
   \<and> int (length [KeyValuePair (Some [97, 98]) [49]]) \<le> 1
   \<and> iterateRecursive (Suc (Suc 0)) (spec_mari []) node_a 0 None 1 1
         [KeyValuePair (Some [97]) [48]] (\<lambda>kv. kv)
       = Some (Ok [KeyValuePair (Some [97]) [48]])"
  using iterate_respects_limit [of "[]" 1 "Suc (Suc (Suc 0))" "spec_mari []" root_ab 0 None 0
      "\<lambda>kv. kv" "[KeyValuePair (Some [97, 98]) [49]]"]
    iterate_respects_limit [of "[KeyValuePair (Some [97]) [48]]" 1 "Suc 0" "spec_mari []" node_a 0
      None 1 "\<lambda>kv. kv"]
    iterate_root_ab_limit_1
  by simp


text \<open>
  C2, at the input at which the code fails it. The trie holds the key \<open>ab\<close> only;
  \<open>iterateRecursive\<close> from the root with the start key \<open>a\<close> and the limit 10 returns the
  sentinel leaf of the node of \<open>a\<close> first, a pair with a nil key, which is smaller than
  the start key.
\<close>

theorem iterate_from_a_returns_sentinel:
  "iterateRecursive (Suc (Suc (Suc 0))) (spec_mari []) root_ab 0 (Some [97]) 10 0 [] (\<lambda>kv. kv)
     = Some (Ok [KeyValuePair None [], KeyValuePair (Some [97, 98]) [49]])
   \<and> bytes_Compare (bytes_of (Key (KeyValuePair None []))) (bytes_of (Some [97])) = - 1"
  by (simp add: iterate_root_ab_from_a bytes_of_def)


text \<open>
  C3, at the input at which the code fails it. At the node of \<open>a\<close>, one level down,
  with the start key \<open>a\<close> (\<open>len(startKey) == level\<close>), the switch emits the node's own
  leaf although the leaf is the sentinel: its key length is 0 and its key is nil.
\<close>

theorem visitNode_exact_point_emits_sentinel:
  "visitNode node_a 0 (Some [97]) 10 1 [] (\<lambda>kv. kv) = Some ([KeyValuePair None []], 0)
   \<and> keyLength (leaf node_a) = 0
   \<and> length (bytes_of (LNode.key (leaf node_a))) = 0"
  by (simp add: visitNode_def node_a_def sentinel_def genKeyValPair_def bytes_of_def)



text \<open>
  C1. Take a committed trie: one that is well formed from its root to some depth. Let S
  be the set of the pairs stored in it (with a leaf version from \<open>minVersion\<close> on).
  Then \<open>iterateRecursive\<close>, started at the root at level 0 with a nil start key, the
  limit \<open>|S|\<close>, an empty accumulator and fuel for the depth, returns: its result is the
  transform applied to a list \<open>ps\<close> that has exactly the pairs of S, each once, in
  strictly ascending lexicographic order of the keys. The accumulator is only ever
  appended to (\<open>iterateRecursive_nil\<close>), so it is sorted on return.
\<close>

theorem iterate_nil_sorted:
  assumes "wf_trie mariInst depth [] root" and "depth \<le> fuel"
  shows "\<exists>ps. set ps = stored_pairs mariInst minVersion root
           \<and> length ps = card (stored_pairs mariInst minVersion root)
           \<and> sorted_wrt key_less ps
           \<and> iterateRecursive fuel mariInst root minVersion None (int (length ps)) 0 [] transform
               = Some (Ok (map transform ps))"
proof -
  define ps where "ps = preorder_pairs mariInst depth minVersion 0 root"
  have s: "set ps = stored_pairs mariInst minVersion root"
    unfolding ps_def
    using preorder_subset_stored stored_subset_preorder [OF assms(1)] by blast
  have so: "sorted_wrt key_less ps"
    unfolding ps_def using preorder_sorted_prefix [OF assms(1)] by blast
  then have "distinct ps"
    using key_less_irrefl by (rule sorted_wrt_irrefl_imp_distinct)
  then have c: "length ps = card (stored_pairs mariInst minVersion root)"
    using s distinct_card by fastforce
  have "iterateRecursive fuel mariInst root minVersion None (int (length ps)) 0 [] transform
          = Some (Ok ([] @ map transform (take (nat (int (length ps) - int (length ([] :: KeyValuePair list))))
                 (preorder_pairs mariInst depth minVersion 0 root))))"
    by (rule iterateRecursive_nil [OF assms]) simp
  then have "iterateRecursive fuel mariInst root minVersion None (int (length ps)) 0 [] transform
          = Some (Ok (map transform ps))"
    by (simp add: ps_def)
  with s c so show ?thesis by blast
qed


theorem iterate_nil_sorted_witness:
  "wf_trie (spec_mari []) (Suc (Suc (Suc 0))) [] root_ab
   \<and> KeyValuePair (Some [97, 98]) [49] \<in> stored_pairs (spec_mari []) 0 root_ab
   \<and> (\<exists>ps. set ps = stored_pairs (spec_mari []) 0 root_ab
         \<and> length ps = card (stored_pairs (spec_mari []) 0 root_ab)
         \<and> sorted_wrt key_less ps
         \<and> iterateRecursive (Suc (Suc (Suc 0))) (spec_mari []) root_ab 0 None (int (length ps)) 0 []
              (\<lambda>kv. kv) = Some (Ok (map (\<lambda>kv. kv) ps)))"
  using iterate_nil_sorted [OF wf_trie_root_ab, of "Suc (Suc (Suc 0))" 0 "\<lambda>kv. kv"] wf_trie_root_ab
    stored_root_ab
  by simp

text \<open>
  C6. Let \<open>writeINodeToMemMap\<close> return without error for a node whose offsets are
  assigned as the commit assigns them: the encoding of the node fills its region (its
  length is \<open>endOffset + 1\<close>, the codec's contract) and the leaf's region starts after
  the node's region, which the slice bound \<open>node.leaf.startOffset + 1\<close> of the code
  presupposes. Then the bytes \<open>[startOffset, startOffset + endOffset]\<close> of the map are
  the encoding of the node, that region has been flushed, and after it the leaf has been
  serialized, written at its own start offset (as much of it as its region holds) and
  flushed. The length of the map is unchanged.
\<close>

theorem writeINodeToMemMap_written:
  assumes ok: "writeINodeToMemMap mariInst node = (Ok offset, mariInst')"
    and ser: "serializeINode mariInst node False = Ok sNode"
    and enc: "length sNode = unat (INode.endOffset node) + 1"
    and layout: "unat (INode.startOffset node) + unat (INode.endOffset node)
                   < unat (LNode.startOffset (leaf node))"
    and cap: "length (data mariInst) < 2 ^ 63"
  shows "take (unat (INode.endOffset node) + 1)
             (drop (unat (INode.startOffset node)) (data mariInst')) = sNode
         \<and> flushed mariInst' = flushed mariInst
              @ [(INode.startOffset node, INode.startOffset node + ucast (INode.endOffset node)),
                 (LNode.startOffset (leaf node),
                  LNode.startOffset (leaf node) + ucast (LNode.endOffset (leaf node)))]
         \<and> (\<exists>sLeaf. serializeLNode mariInst (leaf node) = Ok sLeaf
               \<and> take (min (length sLeaf) (unat (LNode.endOffset (leaf node)) + 1))
                    (drop (unat (LNode.startOffset (leaf node))) (data mariInst'))
                  = take (min (length sLeaf) (unat (LNode.endOffset (leaf node)) + 1)) sLeaf)
         \<and> length (data mariInst') = length (data mariInst)"
proof -
  from writeINode_Ok [OF ok] ser obtain d1 where
    c1: "copy_to_slice (data mariInst) (INode.startOffset node)
           (LNode.startOffset (leaf node) + 1) sNode = Ok d1"
    and wl: "writeLNodeToMemMap
                (mariInst\<lparr>data := d1, flushed := flushed mariInst
                    @ [(INode.startOffset node, getEndOffsetINode node)]\<rparr>)
                (leaf node) = (Ok offset, mariInst')"
    by auto
  define m1 where "m1 = mariInst\<lparr>data := d1, flushed := flushed mariInst
                    @ [(INode.startOffset node, getEndOffsetINode node)]\<rparr>"
  from writeLNode_Ok [OF wl [folded m1_def]] obtain sLeaf d2 where
    sl: "serializeLNode m1 (leaf node) = Ok sLeaf"
    and c2: "copy_to_slice (data m1) (LNode.startOffset (leaf node))
               (getEndOffsetLNode (leaf node) + 1) sLeaf = Ok d2"
    and m': "mariInst' = m1\<lparr>data := d2, flushed := flushed m1
               @ [(LNode.startOffset (leaf node), getEndOffsetLNode (leaf node))]\<rparr>"
    by blast
  have d1: "data m1 = d1" by (simp add: m1_def)
  have len1: "length d1 = length (data mariInst)"
    using copy_to_slice_length [OF c1] .
  note b2 = copy_to_slice_Ok(1,2) [OF c2 [unfolded d1]]
  have small: "unat (LNode.startOffset (leaf node)) < 2 ^ 63"
    using b2 len1 cap by simp
  have hi1: "unat (LNode.startOffset (leaf node) + 1) = unat (LNode.startOffset (leaf node)) + 1"
    using small by (rule unat_succ_small)
  have hi2: "unat (getEndOffsetLNode (leaf node) + 1)
      = unat (LNode.startOffset (leaf node)) + unat (LNode.endOffset (leaf node)) + 1"
    unfolding getEndOffsetLNode_def using small by (rule unat_end_small)
  have w1: "take (unat (INode.endOffset node) + 1) (drop (unat (INode.startOffset node)) d1)
      = take (unat (INode.endOffset node) + 1) sNode"
    by (rule copy_to_slice_written [OF c1]) (use enc layout hi1 in simp_all)
  have keep: "take (unat (INode.endOffset node) + 1) (drop (unat (INode.startOffset node)) d2)
      = take (unat (INode.endOffset node) + 1) (drop (unat (INode.startOffset node)) d1)"
    by (rule copy_to_slice_before [OF c2 [unfolded d1]]) (use layout in simp)
  have data': "data mariInst' = d2" by (simp add: m')
  have a: "take (unat (INode.endOffset node) + 1)
             (drop (unat (INode.startOffset node)) (data mariInst')) = sNode"
    unfolding data' keep w1 using enc by simp
  have b: "flushed mariInst' = flushed mariInst
              @ [(INode.startOffset node, INode.startOffset node + ucast (INode.endOffset node)),
                 (LNode.startOffset (leaf node),
                  LNode.startOffset (leaf node) + ucast (LNode.endOffset (leaf node)))]"
    by (simp add: m' m1_def getEndOffsetINode_def getEndOffsetLNode_def)
  have sl': "serializeLNode mariInst (leaf node) = Ok sLeaf"
    using sl by (simp add: m1_def)
  have c: "take (min (length sLeaf) (unat (LNode.endOffset (leaf node)) + 1))
                    (drop (unat (LNode.startOffset (leaf node))) (data mariInst'))
                  = take (min (length sLeaf) (unat (LNode.endOffset (leaf node)) + 1)) sLeaf"
    unfolding data'
    by (rule copy_to_slice_written [OF c2 [unfolded d1]]) (use hi2 in simp_all)
  have d: "length (data mariInst') = length (data mariInst)"
    unfolding data' using copy_to_slice_length [OF c2 [unfolded d1]] len1 by simp
  from a b sl' c d show ?thesis by blast
qed



theorem writeINodeToMemMap_written_witness:
  "fst (writeINodeToMemMap (spec_mari (replicate 200 0)) ex_written) = Ok 143
   \<and> take 58 (drop 64 (data (snd (writeINodeToMemMap (spec_mari (replicate 200 0)) ex_written))))
       = [1, 0, 0, 0, 0, 0, 0, 0, 64, 0, 0, 0, 0, 0, 0, 0, 57, 0,
        0, 0, 0, 0, 0, 0, 0, 0, 0, 0, 0, 0, 0, 0, 0, 0, 0, 0, 0, 0, 0, 0, 0, 0, 0, 0, 0, 0, 0, 0, 0, 0,
        122, 0, 0, 0, 0, 0, 0, 0]
   \<and> flushed (snd (writeINodeToMemMap (spec_mari (replicate 200 0)) ex_written))
       = [(64, 121), (122, 142)]
   \<and> take 21 (drop 122 (data (snd (writeINodeToMemMap (spec_mari (replicate 200 0)) ex_written))))
       = [1, 0, 0, 0, 0, 0, 0, 0, 122, 0, 0, 0, 0, 0, 0, 0, 20, 0, 1, 97, 49]"
proof -
  have ok: "writeINodeToMemMap (spec_mari (replicate 200 0)) ex_written
      = (Ok 143, snd (writeINodeToMemMap (spec_mari (replicate 200 0)) ex_written))"
    using write_ex_written by (metis prod.collapse)
  have enc: "length [1, 0, 0, 0, 0, 0, 0, 0, 64, 0, 0, 0, 0, 0, 0, 0, 57, 0,
        0, 0, 0, 0, 0, 0, 0, 0, 0, 0, 0, 0, 0, 0, 0, 0, 0, 0, 0, 0, 0, 0, 0, 0, 0, 0, 0, 0, 0, 0, 0, 0,
        122, 0, 0, 0, 0, 0, 0, (0::byte)] = unat (INode.endOffset ex_written) + 1"
    by (simp add: ex_written_def)
  have layout: "unat (INode.startOffset ex_written) + unat (INode.endOffset ex_written)
                   < unat (LNode.startOffset (leaf ex_written))"
    by (simp add: ex_written_def)
  have cap: "length (data (spec_mari (replicate 200 0))) < 2 ^ 63"
    by (simp add: spec_mari_def)
  define M' where "M' = snd (writeINodeToMemMap (spec_mari (replicate 200 0)) ex_written)"
  note w = writeINodeToMemMap_written [OF ok serializeINode_ex_written enc layout cap,
      folded M'_def]
  have e: "unat (INode.endOffset ex_written) + 1 = 58" "unat (INode.startOffset ex_written) = 64"
    "unat (LNode.endOffset (leaf ex_written)) + 1 = 21"
    "unat (LNode.startOffset (leaf ex_written)) = 122"
    by (simp_all add: ex_written_def)
  from w have a: "take 58 (drop 64 (data M'))
       = [1, 0, 0, 0, 0, 0, 0, 0, 64, 0, 0, 0, 0, 0, 0, 0, 57, 0,
        0, 0, 0, 0, 0, 0, 0, 0, 0, 0, 0, 0, 0, 0, 0, 0, 0, 0, 0, 0, 0, 0, 0, 0, 0, 0, 0, 0, 0, 0, 0, 0,
        122, 0, 0, 0, 0, 0, 0, 0]"
    unfolding e by blast
  from w have "flushed M' = flushed (spec_mari (replicate 200 0))
              @ [(INode.startOffset ex_written,
                  INode.startOffset ex_written + ucast (INode.endOffset ex_written)),
                 (LNode.startOffset (leaf ex_written),
                  LNode.startOffset (leaf ex_written) + ucast (LNode.endOffset (leaf ex_written)))]"
    by blast
  then have b: "flushed M' = [(64, 121), (122, 142)]"
    by (simp add: spec_mari_def ex_written_def)
  from w obtain sLeaf where
    "serializeLNode (spec_mari (replicate 200 0)) (leaf ex_written) = Ok sLeaf"
    and t: "take (min (length sLeaf) 21) (drop 122 (data M')) = take (min (length sLeaf) 21) sLeaf"
    unfolding e by blast
  then have sl: "sLeaf = [1, 0, 0, 0, 0, 0, 0, 0, 122, 0, 0, 0, 0, 0, 0, 0, 20, 0, 1, 97, 49]"
    by (simp add: serializeLNode_ex_written)
  then have mn: "min (length sLeaf) 21 = 21" "take 21 sLeaf = sLeaf"
    by simp_all
  from t have "take 21 (drop 122 (data M')) = sLeaf"
    by (simp only: mn)
  then have c: "take 21 (drop 122 (data M'))
      = [1, 0, 0, 0, 0, 0, 0, 0, 122, 0, 0, 0, 0, 0, 0, 0, 20, 0, 1, 97, 49]"
    by (simp only: sl)
  from write_ex_written a b c show ?thesis
    unfolding M'_def by blast
qed

end
